theory Spec2Isabelle
  imports Main
begin

section \<open>The OAuth token manager of \<^verbatim>\<open>src/clients/token-manager.ts\<close>\<close>

text \<open>
  The class \<^verbatim>\<open>TokenManager\<close> keeps an access token in memory, reads it from the
  collection \<^verbatim>\<open>tokens\<close> of a document store when the memory copy is too old, and asks
  the OAuth endpoint for a new one when the token is about to expire.

  Instants are milliseconds since the epoch, as \<^verbatim>\<open>Date.now()\<close> gives them, lifetimes
  are seconds; both are integers here (the fractional and \<^verbatim>\<open>NaN\<close> values of a
  JavaScript number are left out). A value that may be \<^verbatim>\<open>undefined\<close> is an
  \<open>option\<close>, with \<open>None\<close> for \<^verbatim>\<open>undefined\<close>.
\<close>

subsection \<open>Data\<close>

text \<open>
  \<^verbatim>\<open>interface TokenDocument\<close>. The interface is not enforced on what the driver
  returns, and the write of \<^verbatim>\<open>refreshToken\<close> stores whatever the endpoint sent, so the
  fields the code guards with \<^verbatim>\<open>||\<close> or \<^verbatim>\<open>?:\<close>, and the access token, are
  options.
\<close>

record TokenDocument =
  companyId :: string
  locationId :: "string option"
  access_token :: "string option"
  refresh_token :: string
  token_type :: string
  expires_in :: "int option"
  scope :: string
  clientId :: "string option"
  createdAt :: "int option"
  updatedAt :: "int option"

text \<open>\<^verbatim>\<open>interface CachedToken\<close>; the field \<^verbatim>\<open>refreshToken\<close> carries a suffix, the
  name belongs to the method.\<close>

record CachedToken =
  accessToken :: "string option"
  refreshToken_field :: string
  expiresAt :: int
  fetchedAt :: int

text \<open>\<^verbatim>\<open>resp.data\<close> of a 2xx answer of the token endpoint, as far as line 156 reads it.
  The answer is taken to be an object; each of its three fields may be missing.\<close>

record refresh_data =
  data_access_token :: "string option"
  data_refresh_token :: "string option"
  data_expires_in :: "int option"

text \<open>How a call can fail: the driver is not installed (line 20), the driver rejects
  \<^verbatim>\<open>connect()\<close> or a query, the store has no record for the account (line 121), the
  endpoint rejects the refresh.\<close>

datatype error =
    ImportError
  | ConnectionError
  | NotFoundError string
  | RefreshError

type_synonym handle = nat

definition TOKEN_CACHE_TTL_MS :: int where
  "TOKEN_CACHE_TTL_MS = 20 * 60 * 1000"

text \<open>
  What the manager cannot decide: the clock, whether the driver is installed, and how
  each call to the store and to the endpoint ends. Every kind of call is numbered in the
  order in which it is issued; the \<open>k\<close>-th call of a kind ends as the oracle says at \<open>k\<close>.
  The endpoint sees the form fields \<^verbatim>\<open>client_id\<close>, \<^verbatim>\<open>client_secret\<close> and
  \<^verbatim>\<open>refresh_token\<close>; \<open>None\<close> is a rejected request (a status outside 2xx or a transport
  failure).
\<close>

record env =
  clock :: "nat \<Rightarrow> int"
  installed :: bool
  connect_ok :: "nat \<Rightarrow> bool"
  find_ok :: "nat \<Rightarrow> bool"
  post :: "nat \<Rightarrow> string \<times> string \<times> string \<Rightarrow> refresh_data option"
  update_ok :: "nat \<Rightarrow> bool"

text \<open>
  The fields of the instance (\<^verbatim>\<open>this\<close>), the module variable \<^verbatim>\<open>mongoImported\<close>, the
  documents of the collection in their natural order, and the number of calls of each
  kind issued so far. A client handle is the number of the \<^verbatim>\<open>connect()\<close> call made on it:
  every \<^verbatim>\<open>new MC(...)\<close> is followed by exactly one. \<open>connecting\<close> holds the in-flight
  attempt, here with the way it settles.
\<close>

record state =
  mongoUri :: string
  this_companyId :: string
  this_clientId :: string
  clientSecret :: string
  cache :: "CachedToken option"
  mongoClient :: "handle option"
  connecting :: "(error + handle) option"
  mongoImported :: bool
  tokens :: "TokenDocument list"
  ticks :: nat
  connects :: nat
  finds :: nat
  posts :: nat
  updates :: nat

subsection \<open>Helpers of the language and of the driver\<close>

text \<open>\<^verbatim>\<open>Date.now()\<close>: the next reading of the clock.\<close>

definition Date_now :: "env \<Rightarrow> state \<Rightarrow> int \<times> state" where
  "Date_now e s = (clock e (ticks s), s\<lparr>ticks := Suc (ticks s)\<rparr>)"

text \<open>\<^verbatim>\<open>x || d\<close> on a number and on a string: \<^verbatim>\<open>undefined\<close>, \<^verbatim>\<open>0\<close> and the empty
  string are falsy.\<close>

definition num_or :: "int option \<Rightarrow> int \<Rightarrow> int" where
  "num_or x d = (case x of None \<Rightarrow> d | Some n \<Rightarrow> if n = 0 then d else n)"

definition str_or :: "string option \<Rightarrow> string \<Rightarrow> string" where
  "str_or x d = (case x of None \<Rightarrow> d | Some v \<Rightarrow> if v = [] then d else v)"

text \<open>\<^verbatim>\<open>collection.findOne({ companyId })\<close>: the first document with that key.\<close>

fun findOne :: "string \<Rightarrow> TokenDocument list \<Rightarrow> TokenDocument option" where
  "findOne cid [] = None"
| "findOne cid (d # ds) = (if companyId d = cid then Some d else findOne cid ds)"

text \<open>\<^verbatim>\<open>collection.updateOne({ companyId }, { $set: ... })\<close>, called without the option
  \<^verbatim>\<open>upsert\<close>: the first document with that key gets the fields, and a collection with no
  such document stays as it is.\<close>

fun updateOne :: "string \<Rightarrow> (TokenDocument \<Rightarrow> TokenDocument) \<Rightarrow> TokenDocument list
    \<Rightarrow> TokenDocument list" where
  "updateOne cid f [] = []"
| "updateOne cid f (d # ds) = (if companyId d = cid then f d # ds else d # updateOne cid f ds)"

subsection \<open>Connecting\<close>

text \<open>\<^verbatim>\<open>getMongoClient\<close>: the dynamic import, done once.\<close>

definition getMongoClient :: "env \<Rightarrow> state \<Rightarrow> (error + unit) \<times> state" where
  "getMongoClient e s =
     (if \<not> mongoImported s then
        (if installed e then (Inr (), s\<lparr>mongoImported := True\<rparr>) else (Inl ImportError, s))
      else (Inr (), s))"

text \<open>The body of the \<^verbatim>\<open>async\<close> arrow function of lines 96 to 102. The handle is stored
  in \<^verbatim>\<open>this.mongoClient\<close> before \<^verbatim>\<open>connect()\<close> is awaited.\<close>

definition connect_attempt :: "env \<Rightarrow> state \<Rightarrow> (error + handle) \<times> state" where
  "connect_attempt e s =
     (case getMongoClient e s of
        (Inl err, s1) \<Rightarrow> (Inl err, s1)
      | (Inr _, s1) \<Rightarrow>
          (let h = connects s1;
               s2 = s1\<lparr>mongoClient := Some h, connects := Suc (connects s1)\<rparr>
           in if connect_ok e h then (Inr h, s2) else (Inl ConnectionError, s2)))"

text \<open>\<^verbatim>\<open>ensureConnected\<close>, one caller run to its end.\<close>

definition ensureConnected :: "env \<Rightarrow> state \<Rightarrow> (error + handle) \<times> state" where
  "ensureConnected e s =
     (case mongoClient s of
        Some h \<Rightarrow> (Inr h, s)
      | None \<Rightarrow>
          (case connecting s of
             Some p \<Rightarrow> (p, s)
           | None \<Rightarrow>
               (let (r, s1) = connect_attempt e s;
                    s2 = s1\<lparr>connecting := Some r\<rparr>
                in (r, s2\<lparr>connecting := None\<rparr>))))"

subsection \<open>Refreshing\<close>

text \<open>The \<^verbatim>\<open>$set\<close> of lines 173 to 178.\<close>

definition set_fields :: "string option \<Rightarrow> string \<Rightarrow> int \<Rightarrow> int \<Rightarrow> TokenDocument \<Rightarrow> TokenDocument"
  where
  "set_fields at rt ei t d =
     d\<lparr>access_token := at, refresh_token := rt, expires_in := Some ei, updatedAt := Some t\<rparr>"

text \<open>The \<^verbatim>\<open>try\<close> block of lines 167 to 184, whose error is caught: it yields a state
  only. \<^verbatim>\<open>new Date()\<close> is read when the argument of \<^verbatim>\<open>updateOne\<close> is built, before the
  call is issued. A rejected update leaves the collection as it was.\<close>

definition write_through :: "env \<Rightarrow> state \<Rightarrow> string option \<Rightarrow> string \<Rightarrow> int \<Rightarrow> state" where
  "write_through e s at rt ei =
     (case ensureConnected e s of
        (Inl err, s1) \<Rightarrow> s1
      | (Inr client, s1) \<Rightarrow>
          (let (t, s2) = Date_now e s1;
               s3 = s2\<lparr>updates := Suc (updates s2)\<rparr>
           in if update_ok e (updates s2)
              then s3\<lparr>tokens := updateOne (this_companyId s3) (set_fields at rt ei t) (tokens s3)\<rparr>
              else s3))"

definition refreshToken :: "env \<Rightarrow> state \<Rightarrow> string \<Rightarrow> (error + string option) \<times> state" where
  "refreshToken e s rt =
     (let s1 = s\<lparr>posts := Suc (posts s)\<rparr> in
      case post e (posts s) (this_clientId s, clientSecret s, rt) of
        None \<Rightarrow> (Inl RefreshError, s1)
      | Some d \<Rightarrow>
          (let (now, s2) = Date_now e s1;
               s3 = s2\<lparr>cache := Some \<lparr>accessToken = data_access_token d,
                                      refreshToken_field = str_or (data_refresh_token d) rt,
                                      expiresAt = now + num_or (data_expires_in d) 86400 * 1000,
                                      fetchedAt = now\<rparr>\<rparr>;
               s4 = write_through e s3 (data_access_token d)
                      (str_or (data_refresh_token d) rt) (num_or (data_expires_in d) 86400)
           in (Inr (data_access_token d), s4)))"

subsection \<open>Reading the store\<close>

definition readTokenFromDb :: "env \<Rightarrow> state \<Rightarrow> (error + string option) \<times> state" where
  "readTokenFromDb e s =
     (case ensureConnected e s of
        (Inl err, s1) \<Rightarrow> (Inl err, s1)
      | (Inr client, s1) \<Rightarrow>
          (let s2 = s1\<lparr>finds := Suc (finds s1)\<rparr> in
           if \<not> find_ok e (finds s1) then (Inl ConnectionError, s2)
           else
             (case findOne (this_companyId s2) (tokens s2) of
                None \<Rightarrow> (Inl (NotFoundError (this_companyId s2)), s2)
              | Some doc \<Rightarrow>
                  (let (upd, s3) = (case updatedAt doc of
                                      Some u \<Rightarrow> (u, s2)
                                    | None \<Rightarrow> Date_now e s2);
                       exp = upd + num_or (expires_in doc) 86400 * 1000;
                       (t, s4) = Date_now e s3
                   in if t > exp - 60000 then refreshToken e s4 (refresh_token doc)
                      else
                        (let (f, s5) = Date_now e s4;
                             s6 = s5\<lparr>cache := Some \<lparr>accessToken = access_token doc,
                                                    refreshToken_field = refresh_token doc,
                                                    expiresAt = exp,
                                                    fetchedAt = f\<rparr>\<rparr>;
                             (l, s7) = Date_now e s6
                         in (Inr (access_token doc), s7))))))"

subsection \<open>The entry point\<close>

definition getAccessToken :: "env \<Rightarrow> state \<Rightarrow> (error + string option) \<times> state" where
  "getAccessToken e s =
     (case cache s of
        None \<Rightarrow> readTokenFromDb e s
      | Some c \<Rightarrow>
          (let (t1, s1) = Date_now e s in
           if t1 - fetchedAt c < TOKEN_CACHE_TTL_MS then
             (let (t2, s2) = Date_now e s1 in
              if t2 < expiresAt c - 60000 then (Inr (accessToken c), s2)
              else
                (case refreshToken e s2 (refreshToken_field c) of
                   (Inr tok, s3) \<Rightarrow> (Inr tok, s3)
                 | (Inl err, s3) \<Rightarrow> readTokenFromDb e s3))
           else readTokenFromDb e s1))"

subsection \<open>Concurrent calls of \<^verbatim>\<open>ensureConnected\<close>\<close>

text \<open>
  The runtime runs one function at a time and switches only at an \<^verbatim>\<open>await\<close>. A run of
  several calls is therefore a sequence of events, each the stretch of code between two
  suspension points, executed whole:
  \<^item> \<open>Call\<close>: a caller enters \<^verbatim>\<open>ensureConnected\<close> and runs to its first \<^verbatim>\<open>await\<close> or to
    its \<^verbatim>\<open>return\<close> (lines 93 to 105; the arrow function it may start runs on to the
    \<^verbatim>\<open>await\<close> of line 97, and \<^verbatim>\<open>getMongoClient\<close> inside it to line 16 or line 23);
  \<^item> \<open>ImportSettles p ok\<close>: the import of attempt \<open>p\<close> resolves or rejects, and
    \<^verbatim>\<open>getMongoClient\<close> runs to its end (lines 17, 18 and 23, or line 20);
  \<^item> \<open>AttemptResumes p\<close>: the arrow function of attempt \<open>p\<close> resumes at line 97, and
    either fails with the import or stores a new client and calls \<^verbatim>\<open>connect()\<close>
    (lines 98 and 99);
  \<^item> \<open>ConnectSettles p ok\<close>: \<^verbatim>\<open>connect()\<close> of attempt \<open>p\<close> resolves or rejects, and the
    arrow function runs to its end (lines 100 and 101, which returns what
    \<^verbatim>\<open>this.mongoClient\<close> holds then);
  \<^item> \<open>CallerResumes i\<close>: caller \<open>i\<close> resumes once the promise it waits for has settled;
    the caller of line 105 clears \<^verbatim>\<open>this.connecting\<close> (line 107), the caller of line 94
    only takes the outcome.

  An event that is not enabled changes nothing. Every order of events is a run, so the
  runs of the model include every schedule of the runtime. Attempts (the promises stored
  in \<^verbatim>\<open>this.connecting\<close>) and callers are numbered in the order in which they start.
\<close>

text \<open>Where an attempt stands: not started; waiting for the import (line 16); past
  \<^verbatim>\<open>getMongoClient\<close>, which ended well or not, and not yet resumed; waiting for
  \<^verbatim>\<open>connect()\<close> (line 99); settled, with an error or with what line 101 returned. Where
  a caller stands: not called; waiting at line 105 for attempt \<open>p\<close>; gone through line 94
  with the promise of attempt \<open>p\<close>; done, with its outcome.\<close>

datatype attempt =
    NotStarted
  | Importing
  | AwaitingMC bool
  | Connecting
  | Settled "error + handle option"

datatype caller =
    NotCalled
  | Awaiting nat
  | Returned nat
  | Done "error + handle option"

text \<open>The fields of the instance that \<^verbatim>\<open>ensureConnected\<close> touches, with the suffix \<open>_a\<close>,
  the module variable, the number of \<^verbatim>\<open>connect()\<close> calls issued, and the attempts and
  callers with the point each has reached.\<close>

record pool =
  mongoClient_a :: "handle option"
  connecting_a :: "nat option"
  mongoImported_a :: bool
  connects_a :: nat
  attempts :: "nat \<Rightarrow> attempt"
  started :: nat
  callers :: "nat \<Rightarrow> caller"
  called :: nat

datatype event =
    Call
  | ImportSettles nat bool
  | AttemptResumes nat
  | ConnectSettles nat bool
  | CallerResumes nat

definition call :: "pool \<Rightarrow> pool" where
  "call s =
     (let s1 = s\<lparr>called := Suc (called s)\<rparr> in
      case mongoClient_a s of
        Some h \<Rightarrow> s1\<lparr>callers := (callers s)(called s := Done (Inr (Some h)))\<rparr>
      | None \<Rightarrow>
          (case connecting_a s of
             Some p \<Rightarrow> s1\<lparr>callers := (callers s)(called s := Returned p)\<rparr>
           | None \<Rightarrow>
               s1\<lparr>attempts := (attempts s)
                       (started s := if mongoImported_a s then AwaitingMC True else Importing),
                  started := Suc (started s),
                  connecting_a := Some (started s),
                  callers := (callers s)(called s := Awaiting (started s))\<rparr>))"

definition import_settles :: "nat \<Rightarrow> bool \<Rightarrow> pool \<Rightarrow> pool" where
  "import_settles p ok s =
     (if attempts s p = Importing then
        (if ok then s\<lparr>mongoImported_a := True, attempts := (attempts s)(p := AwaitingMC True)\<rparr>
         else s\<lparr>attempts := (attempts s)(p := AwaitingMC False)\<rparr>)
      else s)"

definition attempt_resumes :: "nat \<Rightarrow> pool \<Rightarrow> pool" where
  "attempt_resumes p s =
     (case attempts s p of
        AwaitingMC ok \<Rightarrow>
          (if ok then s\<lparr>mongoClient_a := Some (connects_a s),
                        connects_a := Suc (connects_a s),
                        attempts := (attempts s)(p := Connecting)\<rparr>
           else s\<lparr>attempts := (attempts s)(p := Settled (Inl ImportError))\<rparr>)
      | _ \<Rightarrow> s)"

definition connect_settles :: "nat \<Rightarrow> bool \<Rightarrow> pool \<Rightarrow> pool" where
  "connect_settles p ok s =
     (if attempts s p = Connecting then
        (if ok then s\<lparr>attempts := (attempts s)(p := Settled (Inr (mongoClient_a s)))\<rparr>
         else s\<lparr>attempts := (attempts s)(p := Settled (Inl ConnectionError))\<rparr>)
      else s)"

definition caller_resumes :: "nat \<Rightarrow> pool \<Rightarrow> pool" where
  "caller_resumes i s =
     (case callers s i of
        Awaiting p \<Rightarrow>
          (case attempts s p of
             Settled r \<Rightarrow> s\<lparr>connecting_a := None, callers := (callers s)(i := Done r)\<rparr>
           | _ \<Rightarrow> s)
      | Returned p \<Rightarrow>
          (case attempts s p of
             Settled r \<Rightarrow> s\<lparr>callers := (callers s)(i := Done r)\<rparr>
           | _ \<Rightarrow> s)
      | _ \<Rightarrow> s)"

fun step :: "event \<Rightarrow> pool \<Rightarrow> pool" where
  "step Call s = call s"
| "step (ImportSettles p ok) s = import_settles p ok s"
| "step (AttemptResumes p) s = attempt_resumes p s"
| "step (ConnectSettles p ok) s = connect_settles p ok s"
| "step (CallerResumes i) s = caller_resumes i s"

fun run :: "event list \<Rightarrow> pool \<Rightarrow> pool" where
  "run [] s = s"
| "run (ev # evs) s = run evs (step ev s)"

text \<open>A manager that has not connected, with the driver imported already or not.\<close>

definition never_connected :: "bool \<Rightarrow> pool" where
  "never_connected imported =
     \<lparr>mongoClient_a = None, connecting_a = None, mongoImported_a = imported, connects_a = 0,
      attempts = (\<lambda>p. NotStarted), started = 0, callers = (\<lambda>i. NotCalled), called = 0\<rparr>"

text \<open>One call alone, from its entry to its end, with the import and \<^verbatim>\<open>connect()\<close>
  ending as the oracles of the sequential model say.\<close>

definition lone_call :: "env \<Rightarrow> event list" where
  "lone_call e = [Call, ImportSettles 0 (installed e), AttemptResumes 0,
                  ConnectSettles 0 (connect_ok e 0), CallerResumes 0]"

text \<open>An attempt is in flight from its start until its promise settles.\<close>

fun in_flight :: "attempt \<Rightarrow> bool" where
  "in_flight NotStarted = False"
| "in_flight (Settled r) = False"
| "in_flight _ = True"

text \<open>What every run keeps true, in parts: unused numbers are unused; the client, once
  stored, is handle 0 of the only \<^verbatim>\<open>connect()\<close>; an attempt in flight is the one
  \<^verbatim>\<open>this.connecting\<close> holds; no client is stored before an attempt reaches line 98, and
  one is from then on; a resolved attempt holds handle 0; the caller that waits at
  line 105 waits for the attempt \<^verbatim>\<open>this.connecting\<close> holds, and is the only one there;
  a resolved caller holds handle 0.\<close>

definition fresh_ids :: "pool \<Rightarrow> bool" where
  "fresh_ids s \<longleftrightarrow>
     (\<forall>p \<ge> started s. attempts s p = NotStarted) \<and> (\<forall>i \<ge> called s. callers s i = NotCalled)"

definition one_handle :: "pool \<Rightarrow> bool" where
  "one_handle s \<longleftrightarrow>
     (mongoClient_a s = None \<longrightarrow> connects_a s = 0) \<and>
     (\<forall>h. mongoClient_a s = Some h \<longrightarrow> h = 0 \<and> connects_a s = 1)"

definition marked :: "pool \<Rightarrow> bool" where
  "marked s \<longleftrightarrow> (\<forall>p. in_flight (attempts s p) \<longrightarrow> connecting_a s = Some p)"

definition early :: "pool \<Rightarrow> bool" where
  "early s \<longleftrightarrow>
     (\<forall>p. attempts s p = Importing \<or> (\<exists>b. attempts s p = AwaitingMC b) \<longrightarrow> mongoClient_a s = None)"

definition late :: "pool \<Rightarrow> bool" where
  "late s \<longleftrightarrow>
     (\<forall>p. attempts s p = Connecting \<or> (\<exists>v. attempts s p = Settled (Inr v))
          \<longrightarrow> mongoClient_a s \<noteq> None)"

definition resolved_0 :: "pool \<Rightarrow> bool" where
  "resolved_0 s \<longleftrightarrow> (\<forall>p v. attempts s p = Settled (Inr v) \<longrightarrow> v = Some 0)"

definition awaited :: "pool \<Rightarrow> bool" where
  "awaited s \<longleftrightarrow> (\<forall>i p. callers s i = Awaiting p \<longrightarrow> connecting_a s = Some p)"

definition one_waiter :: "pool \<Rightarrow> bool" where
  "one_waiter s \<longleftrightarrow>
     (\<forall>i j p q. callers s i = Awaiting p \<and> callers s j = Awaiting q \<longrightarrow> i = j)"

definition done_0 :: "pool \<Rightarrow> bool" where
  "done_0 s \<longleftrightarrow>
     (\<forall>i v. callers s i = Done (Inr v) \<longrightarrow> v = Some 0 \<and> mongoClient_a s \<noteq> None)"

definition flight_inv :: "pool \<Rightarrow> bool" where
  "flight_inv s \<longleftrightarrow> fresh_ids s \<and> one_handle s \<and> marked s \<and> early s \<and> late s \<and>
     resolved_0 s \<and> awaited s \<and> one_waiter s \<and> done_0 s"

text \<open>An event succeeds unless it is an import or a \<^verbatim>\<open>connect()\<close> that rejects.\<close>

fun succeeds :: "event \<Rightarrow> bool" where
  "succeeds (ImportSettles p ok) = ok"
| "succeeds (ConnectSettles p ok) = ok"
| "succeeds _ = True"

text \<open>Letting what is pending run: the three events of the attempt that
  \<^verbatim>\<open>this.connecting\<close> holds, each succeeding, then the resumption of every caller.\<close>

definition finish :: "pool \<Rightarrow> event list" where
  "finish s =
     (case connecting_a s of
        None \<Rightarrow> []
      | Some p \<Rightarrow> [ImportSettles p True, AttemptResumes p, ConnectSettles p True])
     @ map CallerResumes [0..<called s]"

text \<open>How many events a caller is from its end: the events its attempt still needs and
  its own resumption. The next of them is the next event of its attempt or, once that has
  settled, its resumption.\<close>

fun stage :: "attempt \<Rightarrow> nat" where
  "stage Importing = 3"
| "stage (AwaitingMC ok) = 2"
| "stage Connecting = 1"
| "stage _ = 0"

definition remaining :: "pool \<Rightarrow> nat \<Rightarrow> nat" where
  "remaining s i =
     (case callers s i of
        Awaiting p \<Rightarrow> Suc (stage (attempts s p))
      | Returned p \<Rightarrow> Suc (stage (attempts s p))
      | _ \<Rightarrow> 0)"

fun attempt_next :: "nat \<Rightarrow> nat \<Rightarrow> attempt \<Rightarrow> event" where
  "attempt_next p i Importing = ImportSettles p True"
| "attempt_next p i (AwaitingMC ok) = AttemptResumes p"
| "attempt_next p i Connecting = ConnectSettles p True"
| "attempt_next p i _ = CallerResumes i"

definition next_event :: "pool \<Rightarrow> nat \<Rightarrow> event" where
  "next_event s i =
     (case callers s i of
        Awaiting p \<Rightarrow> attempt_next p i (attempts s p)
      | Returned p \<Rightarrow> attempt_next p i (attempts s p)
      | _ \<Rightarrow> CallerResumes i)"

text \<open>What every run keeps true of the numbers in use, and what a run keeps true as long
  as every event succeeds: nothing has failed, and from the first call on there is one
  attempt, with the marker set or the client stored.\<close>

definition known :: "pool \<Rightarrow> bool" where
  "known s \<longleftrightarrow>
     (\<forall>p < started s. attempts s p \<noteq> NotStarted) \<and>
     (\<forall>p. connecting_a s = Some p \<longrightarrow> p < started s) \<and>
     (\<forall>i p. callers s i = Awaiting p \<or> callers s i = Returned p \<longrightarrow> p < started s) \<and>
     (\<forall>i < called s. callers s i \<noteq> NotCalled)"

definition unfailed :: "pool \<Rightarrow> bool" where
  "unfailed s \<longleftrightarrow>
     (\<forall>p. attempts s p \<noteq> AwaitingMC False) \<and>
     (\<forall>p err. attempts s p \<noteq> Settled (Inl err)) \<and>
     (\<forall>i err. callers s i \<noteq> Done (Inl err))"

definition one_attempt :: "pool \<Rightarrow> bool" where
  "one_attempt s \<longleftrightarrow>
     (called s = 0 \<longrightarrow> started s = 0 \<and> connecting_a s = None \<and> mongoClient_a s = None) \<and>
     (called s > 0 \<longrightarrow> started s = 1 \<and> (connecting_a s \<noteq> None \<or> mongoClient_a s \<noteq> None))"

definition success_inv :: "pool \<Rightarrow> bool" where
  "success_inv s \<longleftrightarrow> flight_inv s \<and> known s \<and> unfailed s \<and> one_attempt s"

text \<open>A waiting caller takes the outcome of a settled attempt; any other stays.\<close>

fun resolve :: "error + handle option \<Rightarrow> caller \<Rightarrow> caller" where
  "resolve r (Awaiting p) = Done r"
| "resolve r (Returned p) = Done r"
| "resolve r c = c"

text \<open>The state a run reaches from a manager that has never connected, and two callers
  that have arrived with nothing settled yet.\<close>

abbreviation reached :: "bool \<Rightarrow> event list \<Rightarrow> pool" where
  "reached b evs \<equiv> run evs (never_connected b)"

definition ex_two_calls :: "event list" where
  "ex_two_calls = [Call, Call]"

text \<open>Two callers, then a third once the client is stored, and every step succeeding.\<close>

definition ex_events :: "event list" where
  "ex_events = [Call, Call, ImportSettles 0 True, AttemptResumes 0, Call,
     ConnectSettles 0 True, CallerResumes 0, CallerResumes 1]"

subsection \<open>A usable token\<close>

text \<open>What a caller can present to the API: a string, and not the empty one.\<close>

definition nonempty_token :: "string option \<Rightarrow> bool" where
  "nonempty_token v = (case v of None \<Rightarrow> False | Some t \<Rightarrow> t \<noteq> [])"

subsection \<open>A store with one record, and an endpoint that answers\<close>

text \<open>The concrete inputs of the closed theorems below: one record for the account
  \<open>X\<close>, written at instant 0 with a lifetime of an hour, and a manager that has not
  connected yet. The clock stands at one minute before the record expires.\<close>

definition ex_doc :: TokenDocument where
  "ex_doc = \<lparr>companyId = ''X'', locationId = None, access_token = Some ''A0'',
     refresh_token = ''R0'', token_type = ''Bearer'', expires_in = Some 3600, scope = [],
     clientId = None, createdAt = None, updatedAt = Some 0\<rparr>"

definition ex_state :: state where
  "ex_state = \<lparr>mongoUri = ''u'', this_companyId = ''X'', this_clientId = ''c'',
     clientSecret = ''k'', cache = None, mongoClient = None, connecting = None,
     mongoImported = False, tokens = [ex_doc],
     ticks = 0, connects = 0, finds = 0, posts = 0, updates = 0\<rparr>"

definition ex_data :: refresh_data where
  "ex_data = \<lparr>data_access_token = Some ''A1'', data_refresh_token = Some ''R1'',
     data_expires_in = Some 7200\<rparr>"

definition ex_env :: env where
  "ex_env = \<lparr>clock = (\<lambda>n. 3540000), installed = True, connect_ok = (\<lambda>n. True),
     find_ok = (\<lambda>n. True), post = (\<lambda>n x. Some ex_data), update_ok = (\<lambda>n. True)\<rparr>"

text \<open>Variations: a cache entry taken five minutes before the record's last minute, a
  store with no record, a later clock, an endpoint that rejects, a store that rejects
  the write, and a first \<^verbatim>\<open>connect()\<close> that rejects.\<close>

definition ex_cached :: CachedToken where
  "ex_cached = \<lparr>accessToken = Some ''A0'', refreshToken_field = ''R0'',
     expiresAt = 3600000, fetchedAt = 3000000\<rparr>"

definition ex_state_cached :: state where
  "ex_state_cached = ex_state\<lparr>cache := Some ex_cached\<rparr>"

definition ex_state_empty :: state where
  "ex_state_empty = ex_state\<lparr>tokens := []\<rparr>"

definition ex_state_no_record :: state where
  "ex_state_no_record = ex_state\<lparr>cache := Some ex_cached, tokens := []\<rparr>"

definition ex_env_late :: env where
  "ex_env_late = ex_env\<lparr>clock := (\<lambda>n. 4000000)\<rparr>"

definition ex_env_rejecting :: env where
  "ex_env_rejecting = ex_env_late\<lparr>post := (\<lambda>n x. None)\<rparr>"

definition ex_env_write_fails :: env where
  "ex_env_write_fails = ex_env_late\<lparr>update_ok := (\<lambda>n. False)\<rparr>"

definition ex_env_connect_rejects :: env where
  "ex_env_connect_rejects = ex_env\<lparr>connect_ok := (\<lambda>n. n \<noteq> 0)\<rparr>"

text \<open>More variations: an endpoint that answers without an access token or with a
  lifetime of 0, and records with an empty access token, a lifetime of 0, or no
  \<^verbatim>\<open>updatedAt\<close>.\<close>

definition ex_env_no_token :: env where
  "ex_env_no_token = ex_env\<lparr>post := (\<lambda>n x. Some (ex_data\<lparr>data_access_token := None\<rparr>))\<rparr>"

definition ex_env_zero_lifetime :: env where
  "ex_env_zero_lifetime = ex_env\<lparr>post := (\<lambda>n x. Some (ex_data\<lparr>data_expires_in := Some 0\<rparr>))\<rparr>"

definition ex_state_empty_token :: state where
  "ex_state_empty_token = ex_state\<lparr>tokens := [ex_doc\<lparr>access_token := Some []\<rparr>]\<rparr>"

definition ex_state_zero_lifetime :: state where
  "ex_state_zero_lifetime = ex_state\<lparr>tokens := [ex_doc\<lparr>expires_in := Some 0\<rparr>]\<rparr>"

definition ex_doc_undated :: TokenDocument where
  "ex_doc_undated = ex_doc\<lparr>updatedAt := None, createdAt := Some 0\<rparr>"

definition ex_state_undated :: state where
  "ex_state_undated = ex_state\<lparr>tokens := [ex_doc_undated]\<rparr>"

section \<open>Properties\<close>

lemmas ex_defs = ex_doc_def ex_state_def ex_data_def ex_env_def ex_cached_def
  ex_state_cached_def ex_state_empty_def ex_state_no_record_def ex_env_late_def
  ex_env_rejecting_def ex_env_write_fails_def ex_env_connect_rejects_def
  ex_env_no_token_def ex_env_zero_lifetime_def ex_state_empty_token_def
  ex_state_zero_lifetime_def ex_doc_undated_def ex_state_undated_def

lemmas tm_defs = getAccessToken_def readTokenFromDb_def refreshToken_def write_through_def
  ensureConnected_def connect_attempt_def getMongoClient_def Date_now_def num_or_def str_or_def
  set_fields_def TOKEN_CACHE_TTL_MS_def

subsection \<open>The paths of \<^verbatim>\<open>getAccessToken\<close>, one equation each\<close>

lemma getAccessToken_no_cache:
  "cache s = None \<Longrightarrow> getAccessToken e s = readTokenFromDb e s"
  by (simp add: getAccessToken_def)

lemma getAccessToken_stale:
  "cache s = Some c \<Longrightarrow> \<not> clock e (ticks s) - fetchedAt c < TOKEN_CACHE_TTL_MS \<Longrightarrow>
   getAccessToken e s = readTokenFromDb e (s\<lparr>ticks := Suc (ticks s)\<rparr>)"
  by (simp add: getAccessToken_def Date_now_def)

lemma getAccessToken_fresh:
  "cache s = Some c \<Longrightarrow> clock e (ticks s) - fetchedAt c < TOKEN_CACHE_TTL_MS \<Longrightarrow>
   getAccessToken e s =
     (if clock e (Suc (ticks s)) < expiresAt c - 60000
      then (Inr (accessToken c), s\<lparr>ticks := Suc (Suc (ticks s))\<rparr>)
      else (case refreshToken e (s\<lparr>ticks := Suc (Suc (ticks s))\<rparr>) (refreshToken_field c) of
              (Inr tok, s3) \<Rightarrow> (Inr tok, s3)
            | (Inl err, s3) \<Rightarrow> readTokenFromDb e s3))"
  by (simp add: getAccessToken_def Date_now_def)

lemma refreshToken_rejected:
  "post e (posts s) (this_clientId s, clientSecret s, rt) = None \<Longrightarrow>
   refreshToken e s rt = (Inl RefreshError, s\<lparr>posts := Suc (posts s)\<rparr>)"
  by (simp add: refreshToken_def)

lemma refreshToken_answered:
  "post e (posts s) (this_clientId s, clientSecret s, rt) = Some d \<Longrightarrow>
   refreshToken e s rt =
     (Inr (data_access_token d),
      write_through e
        (s\<lparr>posts := Suc (posts s), ticks := Suc (ticks s),
           cache := Some \<lparr>accessToken = data_access_token d,
                          refreshToken_field = str_or (data_refresh_token d) rt,
                          expiresAt = clock e (ticks s) + num_or (data_expires_in d) 86400 * 1000,
                          fetchedAt = clock e (ticks s)\<rparr>\<rparr>)
        (data_access_token d) (str_or (data_refresh_token d) rt)
        (num_or (data_expires_in d) 86400))"
  by (simp add: refreshToken_def Date_now_def)

lemma write_through_cache: "cache (write_through e s at rt ei) = cache s"
  by (simp add: tm_defs Let_def split: option.splits sum.splits prod.splits)

lemma readTokenFromDb_found:
  assumes "ensureConnected e s = (Inr h, s1)" "find_ok e (finds s1)"
    "findOne (this_companyId s1) (tokens s1) = Some doc"
  shows "readTokenFromDb e s =
    (let s2 = s1\<lparr>finds := Suc (finds s1)\<rparr>;
         (upd, s3) = (case updatedAt doc of Some u \<Rightarrow> (u, s2) | None \<Rightarrow> Date_now e s2);
         exp = upd + num_or (expires_in doc) 86400 * 1000
     in if clock e (ticks s3) > exp - 60000
        then refreshToken e (s3\<lparr>ticks := Suc (ticks s3)\<rparr>) (refresh_token doc)
        else (Inr (access_token doc),
              s3\<lparr>ticks := ticks s3 + 3,
                 cache := Some \<lparr>accessToken = access_token doc,
                                refreshToken_field = refresh_token doc,
                                expiresAt = exp,
                                fetchedAt = clock e (Suc (ticks s3))\<rparr>\<rparr>))"
  using assms
  by (simp add: readTokenFromDb_def Date_now_def Let_def split: option.splits prod.splits)

lemma ensureConnected_frame:
  "tokens (snd (ensureConnected e s)) = tokens s"
  "this_companyId (snd (ensureConnected e s)) = this_companyId s"
  "this_clientId (snd (ensureConnected e s)) = this_clientId s"
  "clientSecret (snd (ensureConnected e s)) = clientSecret s"
  "cache (snd (ensureConnected e s)) = cache s"
  "finds (snd (ensureConnected e s)) = finds s"
  "posts (snd (ensureConnected e s)) = posts s"
  "ticks (snd (ensureConnected e s)) = ticks s"
  "updates (snd (ensureConnected e s)) = updates s"
  by (simp_all add: ensureConnected_def connect_attempt_def getMongoClient_def Let_def
      split: option.splits)

lemma write_through_posts: "posts (write_through e s at rt ei) = posts s"
  by (simp add: tm_defs Let_def split: option.splits sum.splits prod.splits)

lemma refreshToken_posts: "posts (snd (refreshToken e s rt)) = Suc (posts s)"
  by (cases "post e (posts s) (this_clientId s, clientSecret s, rt)")
     (simp_all add: refreshToken_rejected refreshToken_answered write_through_posts)

lemma readTokenFromDb_near_expiry:
  assumes "fst (ensureConnected e s) = Inr h" "find_ok e (finds s)"
    "findOne (this_companyId s) (tokens s) = Some doc"
    "clock e (case updatedAt doc of Some u \<Rightarrow> ticks s | None \<Rightarrow> Suc (ticks s))
       > (case updatedAt doc of Some u \<Rightarrow> u | None \<Rightarrow> clock e (ticks s))
         + num_or (expires_in doc) 86400 * 1000 - 60000"
  shows "readTokenFromDb e s =
     refreshToken e
       ((snd (ensureConnected e s))
          \<lparr>finds := Suc (finds s),
           ticks := (case updatedAt doc of Some u \<Rightarrow> Suc (ticks s) | None \<Rightarrow> Suc (Suc (ticks s)))\<rparr>)
       (refresh_token doc)"
proof -
  obtain s1 where s1: "ensureConnected e s = (Inr h, s1)"
    using assms(1) by (cases "ensureConnected e s") auto
  have fr: "tokens s1 = tokens s" "this_companyId s1 = this_companyId s" "ticks s1 = ticks s"
    "finds s1 = finds s"
    using ensureConnected_frame [of e s] s1 by simp_all
  show ?thesis
    using assms(2-4) readTokenFromDb_found [OF s1, of doc]
    by (cases "updatedAt doc") (simp_all add: fr s1 Let_def Date_now_def)
qed

lemma readTokenFromDb_loaded:
  assumes "fst (ensureConnected e s) = Inr h" "find_ok e (finds s)"
    "findOne (this_companyId s) (tokens s) = Some doc"
    "\<not> clock e (case updatedAt doc of Some u \<Rightarrow> ticks s | None \<Rightarrow> Suc (ticks s))
       > (case updatedAt doc of Some u \<Rightarrow> u | None \<Rightarrow> clock e (ticks s))
         + num_or (expires_in doc) 86400 * 1000 - 60000"
  shows "readTokenFromDb e s =
     (Inr (access_token doc),
      (snd (ensureConnected e s))
          \<lparr>finds := Suc (finds s),
           ticks := (case updatedAt doc of Some u \<Rightarrow> ticks s | None \<Rightarrow> Suc (ticks s)) + 3,
           cache := Some \<lparr>accessToken = access_token doc,
                          refreshToken_field = refresh_token doc,
                          expiresAt = (case updatedAt doc of Some u \<Rightarrow> u
                                       | None \<Rightarrow> clock e (ticks s))
                                      + num_or (expires_in doc) 86400 * 1000,
                          fetchedAt = clock e (Suc (case updatedAt doc of Some u \<Rightarrow> ticks s
                                                    | None \<Rightarrow> Suc (ticks s)))\<rparr>\<rparr>)"
proof -
  obtain s1 where s1: "ensureConnected e s = (Inr h, s1)"
    using assms(1) by (cases "ensureConnected e s") auto
  have fr: "tokens s1 = tokens s" "this_companyId s1 = this_companyId s" "ticks s1 = ticks s"
    "finds s1 = finds s"
    using ensureConnected_frame [of e s] s1 by simp_all
  show ?thesis
    using assms(2-4) readTokenFromDb_found [OF s1, of doc]
    by (cases "updatedAt doc") (simp_all add: fr s1 Let_def Date_now_def)
qed

subsection \<open>The expiry test on the two paths\<close>

text \<open>The two tests, by what they do: a request goes to the endpoint from the cache path
  exactly when \<open>now \<ge> E - 60s\<close>, and from the store path exactly when
  \<open>now > E - 60s\<close>.\<close>

lemma readTokenFromDb_posts_le: "posts s \<le> posts (snd (readTokenFromDb e s))"
proof (cases "ensureConnected e s")
  case (Pair r s1)
  have fr: "posts s1 = posts s"
    using ensureConnected_frame [of e s] Pair by simp
  show ?thesis
    using Pair fr
    by (cases r)
       (auto simp: readTokenFromDb_def Let_def Date_now_def refreshToken_posts
          split: option.splits prod.splits)
qed

lemma cache_path_refresh_iff:
  assumes "cache s = Some c" "clock e (ticks s) - fetchedAt c < TOKEN_CACHE_TTL_MS"
  shows "posts s < posts (snd (getAccessToken e s))
         \<longleftrightarrow> clock e (Suc (ticks s)) \<ge> expiresAt c - 60000"
proof (cases "clock e (Suc (ticks s)) < expiresAt c - 60000")
  case True
  then show ?thesis
    using getAccessToken_fresh [OF assms] by simp
next
  case False
  let ?s2 = "s\<lparr>ticks := Suc (Suc (ticks s))\<rparr>"
  have g: "getAccessToken e s =
     (case refreshToken e ?s2 (refreshToken_field c) of
        (Inr tok, s3) \<Rightarrow> (Inr tok, s3) | (Inl err, s3) \<Rightarrow> readTokenFromDb e s3)"
    using False getAccessToken_fresh [OF assms] by simp
  have "posts s < posts (snd (getAccessToken e s))"
  proof (cases "post e (posts ?s2) (this_clientId ?s2, clientSecret ?s2, refreshToken_field c)")
    case None
    have "posts (?s2\<lparr>posts := Suc (posts ?s2)\<rparr>)
            \<le> posts (snd (readTokenFromDb e (?s2\<lparr>posts := Suc (posts ?s2)\<rparr>)))"
      by (rule readTokenFromDb_posts_le)
    then show ?thesis
      by (simp add: g refreshToken_rejected [OF None])
  next
    case (Some d)
    show ?thesis
      by (simp add: g refreshToken_answered [OF Some] write_through_posts)
  qed
  then show ?thesis using False by simp
qed

lemma store_path_refresh_iff:
  assumes "fst (ensureConnected e s) = Inr h" "find_ok e (finds s)"
    "findOne (this_companyId s) (tokens s) = Some doc" "updatedAt doc = Some u"
  shows "posts s < posts (snd (readTokenFromDb e s))
         \<longleftrightarrow> clock e (ticks s) > u + num_or (expires_in doc) 86400 * 1000 - 60000"
proof (cases "clock e (ticks s) > u + num_or (expires_in doc) 86400 * 1000 - 60000")
  case True
  then have "clock e (case updatedAt doc of Some u \<Rightarrow> ticks s | None \<Rightarrow> Suc (ticks s))
       > (case updatedAt doc of Some u \<Rightarrow> u | None \<Rightarrow> clock e (ticks s))
         + num_or (expires_in doc) 86400 * 1000 - 60000"
    by (simp add: assms(4))
  from readTokenFromDb_near_expiry [OF assms(1-3) this] True show ?thesis
    by (simp add: refreshToken_posts ensureConnected_frame)
next
  case False
  then have "\<not> clock e (case updatedAt doc of Some u \<Rightarrow> ticks s | None \<Rightarrow> Suc (ticks s))
       > (case updatedAt doc of Some u \<Rightarrow> u | None \<Rightarrow> clock e (ticks s))
         + num_or (expires_in doc) 86400 * 1000 - 60000"
    by (simp add: assms(4))
  from readTokenFromDb_loaded [OF assms(1-3) this] False show ?thesis
    by (simp add: ensureConnected_frame)
qed

text \<open>
  Claim C1. The test that sends a token to the refresh is meant to hold exactly when
  \<open>now \<ge> E - 60s\<close>, the instant \<open>E - 60s\<close> included, on the cache path and on the
  store path alike. The cache path does so (line 77 returns the cached token only when
  \<open>now < E - 60s\<close>). The store path tests \<open>now > E - 60s\<close> (line 128): at the instant
  \<open>E - 60s\<close> itself a record is loaded and returned without a refresh. Here the record
  expires at \<open>E = 3600000\<close> and every reading of the clock is \<open>3540000\<close>: the read from
  the store sends no request to the endpoint and caches the stored token with that same
  \<open>E\<close>, and the call that follows, at the same instant and on that cache entry, refreshes.
\<close>

theorem C1_store_path_excludes_boundary:
  "expires_in ex_doc = Some 3600 \<and> updatedAt ex_doc = Some 0 \<and>
   clock ex_env 0 = 3600 * 1000 - 60000 \<and>
   fst (readTokenFromDb ex_env ex_state) = Inr (Some ''A0'') \<and>
   posts (snd (readTokenFromDb ex_env ex_state)) = 0 \<and>
   cache (snd (readTokenFromDb ex_env ex_state)) =
     Some \<lparr>accessToken = Some ''A0'', refreshToken_field = ''R0'',
           expiresAt = 3600000, fetchedAt = 3540000\<rparr> \<and>
   posts (snd (getAccessToken ex_env (snd (readTokenFromDb ex_env ex_state)))) = 1 \<and>
   fst (getAccessToken ex_env (snd (readTokenFromDb ex_env ex_state))) = Inr (Some ''A1'')"
  by (simp add: tm_defs ex_defs)

subsection \<open>A rejected connection\<close>

lemma ensureConnected_rejected:
  assumes "mongoClient s = None" "connecting s = None" "mongoImported s \<or> installed e"
    "\<not> connect_ok e (connects s)"
  shows "fst (ensureConnected e s) = Inl ConnectionError"
    and "mongoClient (snd (ensureConnected e s)) = Some (connects s)"
    and "connecting (snd (ensureConnected e s)) = None"
    and "connects (snd (ensureConnected e s)) = Suc (connects s)"
    and "ensureConnected e' (snd (ensureConnected e s)) =
           (Inr (connects s), snd (ensureConnected e s))"
  using assms by (auto simp add: tm_defs Let_def)

text \<open>
  Claim C2. After a \<^verbatim>\<open>connect()\<close> that rejects, the manager is meant to be as if it had
  never connected, so that the next \<^verbatim>\<open>ensureConnected\<close> connects again. The in-flight
  marker is cleared, but the handle was stored before \<^verbatim>\<open>connect()\<close> was awaited
  (line 98) and stays: with a first \<^verbatim>\<open>connect()\<close> that rejects and a second that would
  succeed, the first call fails, \<^verbatim>\<open>mongoClient\<close> holds handle 0, and the second call
  returns handle 0 without a second \<^verbatim>\<open>connect()\<close>.
\<close>

theorem C2_rejected_connect_leaves_handle:
  "\<not> connect_ok ex_env_connect_rejects 0 \<and> connect_ok ex_env_connect_rejects 1 \<and>
   mongoClient ex_state = None \<and> connecting ex_state = None \<and>
   fst (ensureConnected ex_env_connect_rejects ex_state) = Inl ConnectionError \<and>
   mongoClient (snd (ensureConnected ex_env_connect_rejects ex_state)) = Some 0 \<and>
   connecting (snd (ensureConnected ex_env_connect_rejects ex_state)) = None \<and>
   fst (ensureConnected ex_env_connect_rejects
         (snd (ensureConnected ex_env_connect_rejects ex_state))) = Inr 0 \<and>
   connects (snd (ensureConnected ex_env_connect_rejects
         (snd (ensureConnected ex_env_connect_rejects ex_state)))) = 1"
  by (simp add: tm_defs ex_defs)

subsection \<open>The write after a refresh\<close>

lemma findOne_updateOne:
  assumes "findOne cid ds = Some d" "\<And>x. companyId (f x) = companyId x"
  shows "findOne cid (updateOne cid f ds) = Some (f d)"
  using assms by (induction ds) (auto split: if_splits)

lemma updateOne_absent:
  "findOne cid ds = None \<Longrightarrow> updateOne cid f ds = ds"
  by (induction ds) (auto split: if_splits)

lemma findOne_updateOne_other:
  assumes "cid' \<noteq> cid" "\<And>x. companyId (f x) = companyId x"
  shows "findOne cid' (updateOne cid f ds) = findOne cid' ds"
  using assms by (induction ds) auto

lemma ensureConnected_fst_cong:
  assumes "mongoClient s' = mongoClient s" "connecting s' = connecting s"
    "mongoImported s' = mongoImported s" "connects s' = connects s"
  shows "fst (ensureConnected e s') = fst (ensureConnected e s)"
  using assms
  by (simp add: ensureConnected_def connect_attempt_def getMongoClient_def Let_def
      split: option.splits)

lemma write_through_ok:
  assumes "fst (ensureConnected e s) = Inr h" "update_ok e (updates s)"
  shows "tokens (write_through e s at rt ei) =
         updateOne (this_companyId s) (set_fields at rt ei (clock e (ticks s))) (tokens s)"
proof -
  obtain s1 where s1: "ensureConnected e s = (Inr h, s1)"
    using assms(1) by (cases "ensureConnected e s") auto
  have fr: "tokens s1 = tokens s" "this_companyId s1 = this_companyId s" "ticks s1 = ticks s"
    "updates s1 = updates s"
    using ensureConnected_frame [of e s] s1 by simp_all
  show ?thesis
    using assms(2) by (simp add: write_through_def s1 fr Date_now_def Let_def)
qed

lemma write_through_failed:
  assumes "(\<exists>err. fst (ensureConnected e s) = Inl err) \<or> \<not> update_ok e (updates s)"
  shows "tokens (write_through e s at rt ei) = tokens s"
proof (cases "ensureConnected e s")
  case (Pair r s1)
  have fr: "tokens s1 = tokens s" "updates s1 = updates s"
    using ensureConnected_frame [of e s] Pair by simp_all
  show ?thesis
    using assms Pair fr by (cases r) (auto simp: write_through_def Date_now_def Let_def)
qed

lemma write_through_absent:
  assumes "findOne (this_companyId s) (tokens s) = None"
  shows "tokens (write_through e s at rt ei) = tokens s"
proof (cases "ensureConnected e s")
  case (Pair r s1)
  have fr: "tokens s1 = tokens s" "this_companyId s1 = this_companyId s"
    using ensureConnected_frame [of e s] Pair by simp_all
  show ?thesis
    using assms Pair fr
    by (cases r) (auto simp: write_through_def Date_now_def Let_def updateOne_absent)
qed

text \<open>
  Against claim C3 as stated: the write after a refresh is no upsert. With a cache entry
  that needs a refresh and a store that holds no record for the account, the refresh
  succeeds, the update is sent and accepted, and the store still holds no record for
  the account.
\<close>

theorem C3_no_record_no_upsert:
  "fst (getAccessToken ex_env ex_state_no_record) = Inr (Some ''A1'') \<and>
   posts (snd (getAccessToken ex_env ex_state_no_record)) = 1 \<and>
   updates (snd (getAccessToken ex_env ex_state_no_record)) = 1 \<and>
   findOne ''X'' (tokens (snd (getAccessToken ex_env ex_state_no_record))) = None"
  by (simp add: tm_defs ex_defs ex_cached_def ex_state_no_record_def)

lemma refreshToken_stored:
  assumes "post e (posts s) (this_clientId s, clientSecret s, rt) = Some d"
    and "fst (ensureConnected e s) = Inr h"
    and "update_ok e (updates s)"
    and "findOne (this_companyId s) (tokens s) = Some doc"
  shows "findOne (this_companyId s) (tokens (snd (refreshToken e s rt))) =
      Some (doc\<lparr>access_token := data_access_token d,
                refresh_token := str_or (data_refresh_token d) rt,
                expires_in := Some (num_or (data_expires_in d) 86400),
                updatedAt := Some (clock e (Suc (ticks s)))\<rparr>)"
proof -
  let ?c = "\<lparr>accessToken = data_access_token d,
            refreshToken_field = str_or (data_refresh_token d) rt,
            expiresAt = clock e (ticks s) + num_or (data_expires_in d) 86400 * 1000,
            fetchedAt = clock e (ticks s)\<rparr>"
  let ?s3 = "s\<lparr>posts := Suc (posts s), ticks := Suc (ticks s), cache := Some ?c\<rparr>"
  have conn: "fst (ensureConnected e ?s3) = Inr h"
    using assms(2) ensureConnected_fst_cong [of ?s3 s e] by simp
  have upd: "update_ok e (updates ?s3)"
    using assms(3) by simp
  have "tokens (snd (refreshToken e s rt)) =
        updateOne (this_companyId s)
          (set_fields (data_access_token d) (str_or (data_refresh_token d) rt)
             (num_or (data_expires_in d) 86400) (clock e (Suc (ticks s)))) (tokens s)"
    using write_through_ok [OF conn upd] by (simp add: refreshToken_answered [OF assms(1)])
  then have "findOne (this_companyId s) (tokens (snd (refreshToken e s rt))) =
      Some (set_fields (data_access_token d) (str_or (data_refresh_token d) rt)
             (num_or (data_expires_in d) 86400) (clock e (Suc (ticks s))) doc)"
    using findOne_updateOne [OF assms(4)] by (simp add: set_fields_def)
  then show ?thesis
    by (simp add: set_fields_def)
qed

text \<open>
  Claim C3, amended. The write after a refresh updates the record of the account where
  one exists: when the endpoint answers, the connection is there and the store accepts
  the update, a read of the account's record finds the record as it was with the access
  token and the refresh token of the refresh, the lifetime of the refresh, and the
  instant of the write as \<^verbatim>\<open>updatedAt\<close>. The expiry a later read derives from the
  record is that instant plus the lifetime; the cache holds the instant of the refresh,
  one reading of the clock earlier, plus the same lifetime. Where the store holds no
  record for the account, the refresh returns its token all the same and the store
  holds no record afterwards.
\<close>

theorem C3_write_through_updates_record:
  assumes "post e (posts s) (this_clientId s, clientSecret s, rt) = Some d"
  shows "(fst (ensureConnected e s) = Inr h \<and> update_ok e (updates s) \<and>
          findOne (this_companyId s) (tokens s) = Some doc
          \<longrightarrow> fst (refreshToken e s rt) = Inr (data_access_token d) \<and>
              findOne (this_companyId s) (tokens (snd (refreshToken e s rt))) =
                Some (doc\<lparr>access_token := data_access_token d,
                          refresh_token := str_or (data_refresh_token d) rt,
                          expires_in := Some (num_or (data_expires_in d) 86400),
                          updatedAt := Some (clock e (Suc (ticks s)))\<rparr>) \<and>
              cache (snd (refreshToken e s rt)) =
                Some \<lparr>accessToken = data_access_token d,
                      refreshToken_field = str_or (data_refresh_token d) rt,
                      expiresAt = clock e (ticks s) + num_or (data_expires_in d) 86400 * 1000,
                      fetchedAt = clock e (ticks s)\<rparr>)
         \<and>
         (findOne (this_companyId s) (tokens s) = None
          \<longrightarrow> fst (refreshToken e s rt) = Inr (data_access_token d) \<and>
              findOne (this_companyId s) (tokens (snd (refreshToken e s rt))) = None)"
proof (intro conjI impI)
  assume a: "fst (ensureConnected e s) = Inr h \<and> update_ok e (updates s) \<and>
          findOne (this_companyId s) (tokens s) = Some doc"
  show "fst (refreshToken e s rt) = Inr (data_access_token d)"
    by (simp add: refreshToken_answered [OF assms])
  show "findOne (this_companyId s) (tokens (snd (refreshToken e s rt))) =
                Some (doc\<lparr>access_token := data_access_token d,
                          refresh_token := str_or (data_refresh_token d) rt,
                          expires_in := Some (num_or (data_expires_in d) 86400),
                          updatedAt := Some (clock e (Suc (ticks s)))\<rparr>)"
    using a refreshToken_stored [OF assms, of h doc] by simp
  show "cache (snd (refreshToken e s rt)) =
                Some \<lparr>accessToken = data_access_token d,
                      refreshToken_field = str_or (data_refresh_token d) rt,
                      expiresAt = clock e (ticks s) + num_or (data_expires_in d) 86400 * 1000,
                      fetchedAt = clock e (ticks s)\<rparr>"
    by (simp add: refreshToken_answered [OF assms] write_through_cache)
next
  assume n: "findOne (this_companyId s) (tokens s) = None"
  show "fst (refreshToken e s rt) = Inr (data_access_token d)"
    by (simp add: refreshToken_answered [OF assms])
  show "findOne (this_companyId s) (tokens (snd (refreshToken e s rt))) = None"
    using n by (simp add: refreshToken_answered [OF assms] write_through_absent)
qed

text \<open>The amended claim C3 at the store with one record and at the empty store.\<close>

theorem C3_witness:
  "fst (refreshToken ex_env ex_state ''R0'') = Inr (Some ''A1'') \<and>
   findOne ''X'' (tokens ex_state) = Some ex_doc \<and>
   findOne ''X'' (tokens (snd (refreshToken ex_env ex_state ''R0''))) =
     Some (ex_doc\<lparr>access_token := Some ''A1'', refresh_token := ''R1'',
                   expires_in := Some 7200, updatedAt := Some 3540000\<rparr>) \<and>
   cache (snd (refreshToken ex_env ex_state ''R0'')) =
     Some \<lparr>accessToken = Some ''A1'', refreshToken_field = ''R1'',
           expiresAt = 3540000 + 7200 * 1000, fetchedAt = 3540000\<rparr> \<and>
   findOne ''X'' (tokens ex_state_empty) = None \<and>
   fst (refreshToken ex_env ex_state_empty ''R0'') = Inr (Some ''A1'') \<and>
   findOne ''X'' (tokens (snd (refreshToken ex_env ex_state_empty ''R0''))) = None"
proof -
  have p: "post ex_env (posts ex_state) (this_clientId ex_state, clientSecret ex_state, ''R0'')
            = Some ex_data"
    and p': "post ex_env (posts ex_state_empty)
               (this_clientId ex_state_empty, clientSecret ex_state_empty, ''R0'') = Some ex_data"
    by (simp_all add: ex_defs)
  have a: "fst (ensureConnected ex_env ex_state) = Inr 0 \<and> update_ok ex_env (updates ex_state) \<and>
           findOne (this_companyId ex_state) (tokens ex_state) = Some ex_doc"
    by (simp add: tm_defs ex_defs)
  have n: "findOne (this_companyId ex_state_empty) (tokens ex_state_empty) = None"
    by (simp add: ex_defs)
  have v: "str_or (data_refresh_token ex_data) ''R0'' = ''R1''"
    "num_or (data_expires_in ex_data) 86400 = 7200" "data_access_token ex_data = Some ''A1''"
    "clock ex_env (Suc (ticks ex_state)) = 3540000" "clock ex_env (ticks ex_state) = 3540000"
    "this_companyId ex_state = ''X''" "this_companyId ex_state_empty = ''X''"
    by (simp_all add: ex_defs str_or_def num_or_def)
  note t1 = C3_write_through_updates_record [OF p, where h = 0 and doc = ex_doc, THEN conjunct1, rule_format, OF a]
  note t2 = C3_write_through_updates_record [OF p', THEN conjunct2, rule_format, OF n]
  show ?thesis
    using t1 t2 a n by (simp add: v)
qed

subsection \<open>A refresh that fails\<close>

text \<open>
  Claim C5. When the cache entry is fresh, its token needs a refresh and the endpoint
  rejects the request, \<^verbatim>\<open>getAccessToken\<close> does not fail there: it goes on as the read
  from the store does, from the state the rejected request left. When the read from the
  store finds a record near or past its expiry and the endpoint rejects the request, the
  read, and with it the caller, fails with the refresh error.
\<close>

theorem C5_refresh_failure_demoted_or_final:
  "(cache s = Some c \<and> clock e (ticks s) - fetchedAt c < TOKEN_CACHE_TTL_MS \<and>
    \<not> clock e (Suc (ticks s)) < expiresAt c - 60000 \<and>
    post e (posts s) (this_clientId s, clientSecret s, refreshToken_field c) = None
    \<longrightarrow> getAccessToken e s =
          readTokenFromDb e (s\<lparr>ticks := Suc (Suc (ticks s)), posts := Suc (posts s)\<rparr>))
   \<and>
   (fst (ensureConnected e s) = Inr h \<and> find_ok e (finds s) \<and>
    findOne (this_companyId s) (tokens s) = Some doc \<and>
    clock e (case updatedAt doc of Some u \<Rightarrow> ticks s | None \<Rightarrow> Suc (ticks s))
       > (case updatedAt doc of Some u \<Rightarrow> u | None \<Rightarrow> clock e (ticks s))
         + num_or (expires_in doc) 86400 * 1000 - 60000 \<and>
    post e (posts s) (this_clientId s, clientSecret s, refresh_token doc) = None
    \<longrightarrow> fst (readTokenFromDb e s) = Inl RefreshError)"
proof (intro conjI impI)
  assume a: "cache s = Some c \<and> clock e (ticks s) - fetchedAt c < TOKEN_CACHE_TTL_MS \<and>
    \<not> clock e (Suc (ticks s)) < expiresAt c - 60000 \<and>
    post e (posts s) (this_clientId s, clientSecret s, refreshToken_field c) = None"
  let ?s2 = "s\<lparr>ticks := Suc (Suc (ticks s))\<rparr>"
  have "refreshToken e ?s2 (refreshToken_field c) = (Inl RefreshError, ?s2\<lparr>posts := Suc (posts ?s2)\<rparr>)"
    using a by (intro refreshToken_rejected) simp
  then show "getAccessToken e s =
          readTokenFromDb e (s\<lparr>ticks := Suc (Suc (ticks s)), posts := Suc (posts s)\<rparr>)"
    using a getAccessToken_fresh [of s c e] by simp
next
  assume b: "fst (ensureConnected e s) = Inr h \<and> find_ok e (finds s) \<and>
    findOne (this_companyId s) (tokens s) = Some doc \<and>
    clock e (case updatedAt doc of Some u \<Rightarrow> ticks s | None \<Rightarrow> Suc (ticks s))
       > (case updatedAt doc of Some u \<Rightarrow> u | None \<Rightarrow> clock e (ticks s))
         + num_or (expires_in doc) 86400 * 1000 - 60000 \<and>
    post e (posts s) (this_clientId s, clientSecret s, refresh_token doc) = None"
  let ?s4 = "(snd (ensureConnected e s))
          \<lparr>finds := Suc (finds s),
           ticks := (case updatedAt doc of Some u \<Rightarrow> Suc (ticks s) | None \<Rightarrow> Suc (Suc (ticks s)))\<rparr>"
  have eq: "readTokenFromDb e s = refreshToken e ?s4 (refresh_token doc)"
    using b by (intro readTokenFromDb_near_expiry) simp_all
  have "post e (posts ?s4) (this_clientId ?s4, clientSecret ?s4, refresh_token doc) = None"
    using b by (simp add: ensureConnected_frame)
  then show "fst (readTokenFromDb e s) = Inl RefreshError"
    by (simp add: eq refreshToken_rejected)
qed

text \<open>Claim C5 at an endpoint that rejects every request: the refresh from the cache
  falls through to the store, and the refresh from the store is the final error.\<close>

theorem C5_witness:
  "getAccessToken ex_env_rejecting ex_state_cached =
     readTokenFromDb ex_env_rejecting (ex_state_cached\<lparr>ticks := 2, posts := 1\<rparr>) \<and>
   fst (getAccessToken ex_env_rejecting ex_state_cached) = Inl RefreshError \<and>
   fst (readTokenFromDb ex_env_rejecting ex_state) = Inl RefreshError"
proof -
  have a: "cache ex_state_cached = Some ex_cached \<and>
      clock ex_env_rejecting (ticks ex_state_cached) - fetchedAt ex_cached < TOKEN_CACHE_TTL_MS \<and>
      \<not> clock ex_env_rejecting (Suc (ticks ex_state_cached)) < expiresAt ex_cached - 60000 \<and>
      post ex_env_rejecting (posts ex_state_cached)
        (this_clientId ex_state_cached, clientSecret ex_state_cached, refreshToken_field ex_cached)
        = None"
    by (simp add: ex_defs TOKEN_CACHE_TTL_MS_def)
  have b: "fst (ensureConnected ex_env_rejecting ex_state) = Inr 0 \<and>
      find_ok ex_env_rejecting (finds ex_state) \<and>
      findOne (this_companyId ex_state) (tokens ex_state) = Some ex_doc \<and>
      clock ex_env_rejecting
         (case updatedAt ex_doc of Some u \<Rightarrow> ticks ex_state | None \<Rightarrow> Suc (ticks ex_state))
       > (case updatedAt ex_doc of Some u \<Rightarrow> u | None \<Rightarrow> clock ex_env_rejecting (ticks ex_state))
         + num_or (expires_in ex_doc) 86400 * 1000 - 60000 \<and>
      post ex_env_rejecting (posts ex_state)
        (this_clientId ex_state, clientSecret ex_state, refresh_token ex_doc) = None"
    by (simp add: ex_defs tm_defs)
  have t: "ticks ex_state_cached = 0" "posts ex_state_cached = 0"
    by (simp_all add: ex_defs)
  have "getAccessToken ex_env_rejecting ex_state_cached =
     readTokenFromDb ex_env_rejecting (ex_state_cached\<lparr>ticks := 2, posts := 1\<rparr>)"
    using a C5_refresh_failure_demoted_or_final
            [where s = ex_state_cached and c = ex_cached and e = ex_env_rejecting]
    by (simp add: t numeral_2_eq_2)
  moreover have "fst (readTokenFromDb ex_env_rejecting ex_state) = Inl RefreshError"
    using b C5_refresh_failure_demoted_or_final
            [where s = ex_state and e = ex_env_rejecting and h = 0 and doc = ex_doc]
    by blast
  moreover have "fst (readTokenFromDb ex_env_rejecting (ex_state_cached\<lparr>ticks := 2, posts := 1\<rparr>))
     = Inl RefreshError"
    by (simp add: ex_defs tm_defs)
  ultimately show ?thesis by simp
qed

subsection \<open>A write that fails\<close>

text \<open>
  Claim C6. Whenever the endpoint answers a refresh, \<^verbatim>\<open>refreshToken\<close> returns the
  access token of the answer and the cache holds the refreshed token, however the
  connection and the update end; when either fails, the store is as it was. So do
  \<^verbatim>\<open>getAccessToken\<close> on the cache path and the read from the store on its refresh.
\<close>

theorem C6_write_failure_swallowed:
  assumes "post e (posts s) (this_clientId s, clientSecret s, rt) = Some d"
  shows "fst (refreshToken e s rt) = Inr (data_access_token d) \<and>
    cache (snd (refreshToken e s rt)) =
      Some \<lparr>accessToken = data_access_token d,
            refreshToken_field = str_or (data_refresh_token d) rt,
            expiresAt = clock e (ticks s) + num_or (data_expires_in d) 86400 * 1000,
            fetchedAt = clock e (ticks s)\<rparr> \<and>
    ((\<exists>err. fst (ensureConnected e s) = Inl err) \<or> \<not> update_ok e (updates s)
       \<longrightarrow> tokens (snd (refreshToken e s rt)) = tokens s) \<and>
    (cache s = Some c \<and> clock e (ticks s) - fetchedAt c < TOKEN_CACHE_TTL_MS \<and>
     \<not> clock e (Suc (ticks s)) < expiresAt c - 60000 \<and> rt = refreshToken_field c
       \<longrightarrow> fst (getAccessToken e s) = Inr (data_access_token d) \<and>
           (\<exists>c'. cache (snd (getAccessToken e s)) = Some c' \<and>
                 accessToken c' = data_access_token d)) \<and>
    (fst (ensureConnected e s) = Inr h \<and> find_ok e (finds s) \<and>
     findOne (this_companyId s) (tokens s) = Some doc \<and>
     clock e (case updatedAt doc of Some u \<Rightarrow> ticks s | None \<Rightarrow> Suc (ticks s))
       > (case updatedAt doc of Some u \<Rightarrow> u | None \<Rightarrow> clock e (ticks s))
         + num_or (expires_in doc) 86400 * 1000 - 60000 \<and> rt = refresh_token doc
       \<longrightarrow> fst (readTokenFromDb e s) = Inr (data_access_token d) \<and>
           (\<exists>c'. cache (snd (readTokenFromDb e s)) = Some c' \<and>
                 accessToken c' = data_access_token d))"
proof (intro conjI impI)
  show "fst (refreshToken e s rt) = Inr (data_access_token d)"
    by (simp add: refreshToken_answered [OF assms])
  show "cache (snd (refreshToken e s rt)) =
      Some \<lparr>accessToken = data_access_token d,
            refreshToken_field = str_or (data_refresh_token d) rt,
            expiresAt = clock e (ticks s) + num_or (data_expires_in d) 86400 * 1000,
            fetchedAt = clock e (ticks s)\<rparr>"
    by (simp add: refreshToken_answered [OF assms] write_through_cache)
next
  assume f: "(\<exists>err. fst (ensureConnected e s) = Inl err) \<or> \<not> update_ok e (updates s)"
  let ?s3 = "s\<lparr>posts := Suc (posts s), ticks := Suc (ticks s),
           cache := Some \<lparr>accessToken = data_access_token d,
                          refreshToken_field = str_or (data_refresh_token d) rt,
                          expiresAt = clock e (ticks s) + num_or (data_expires_in d) 86400 * 1000,
                          fetchedAt = clock e (ticks s)\<rparr>\<rparr>"
  have "fst (ensureConnected e ?s3) = fst (ensureConnected e s)"
    by (rule ensureConnected_fst_cong) simp_all
  then have "(\<exists>err. fst (ensureConnected e ?s3) = Inl err) \<or> \<not> update_ok e (updates ?s3)"
    using f by simp
  then show "tokens (snd (refreshToken e s rt)) = tokens s"
    using write_through_failed [of e ?s3] by (simp add: refreshToken_answered [OF assms])
next
  assume a: "cache s = Some c \<and> clock e (ticks s) - fetchedAt c < TOKEN_CACHE_TTL_MS \<and>
     \<not> clock e (Suc (ticks s)) < expiresAt c - 60000 \<and> rt = refreshToken_field c"
  let ?s2 = "s\<lparr>ticks := Suc (Suc (ticks s))\<rparr>"
  have p: "post e (posts ?s2) (this_clientId ?s2, clientSecret ?s2, refreshToken_field c) = Some d"
    using assms a by simp
  have g: "getAccessToken e s =
     (case refreshToken e ?s2 (refreshToken_field c) of
        (Inr tok, s3) \<Rightarrow> (Inr tok, s3) | (Inl err, s3) \<Rightarrow> readTokenFromDb e s3)"
    using a getAccessToken_fresh [of s c e] by simp
  show "fst (getAccessToken e s) = Inr (data_access_token d)"
    by (simp add: g refreshToken_answered [OF p])
  show "\<exists>c'. cache (snd (getAccessToken e s)) = Some c' \<and> accessToken c' = data_access_token d"
    by (simp add: g refreshToken_answered [OF p] write_through_cache)
next
  assume b: "fst (ensureConnected e s) = Inr h \<and> find_ok e (finds s) \<and>
     findOne (this_companyId s) (tokens s) = Some doc \<and>
     clock e (case updatedAt doc of Some u \<Rightarrow> ticks s | None \<Rightarrow> Suc (ticks s))
       > (case updatedAt doc of Some u \<Rightarrow> u | None \<Rightarrow> clock e (ticks s))
         + num_or (expires_in doc) 86400 * 1000 - 60000 \<and> rt = refresh_token doc"
  let ?s4 = "(snd (ensureConnected e s))
          \<lparr>finds := Suc (finds s),
           ticks := (case updatedAt doc of Some u \<Rightarrow> Suc (ticks s) | None \<Rightarrow> Suc (Suc (ticks s)))\<rparr>"
  have eq: "readTokenFromDb e s = refreshToken e ?s4 (refresh_token doc)"
    using b by (intro readTokenFromDb_near_expiry) simp_all
  have p: "post e (posts ?s4) (this_clientId ?s4, clientSecret ?s4, refresh_token doc) = Some d"
    using assms b by (simp add: ensureConnected_frame)
  show "fst (readTokenFromDb e s) = Inr (data_access_token d)"
    by (simp add: eq refreshToken_answered [OF p])
  show "\<exists>c'. cache (snd (readTokenFromDb e s)) = Some c' \<and> accessToken c' = data_access_token d"
    by (simp add: eq refreshToken_answered [OF p] write_through_cache)
qed

text \<open>Claim C6 at a store that rejects every update.\<close>

theorem C6_witness:
  "post ex_env_write_fails (posts ex_state) (this_clientId ex_state, clientSecret ex_state, ''R0'')
     = Some ex_data \<and>
   \<not> update_ok ex_env_write_fails (updates ex_state) \<and>
   fst (refreshToken ex_env_write_fails ex_state ''R0'') = Inr (Some ''A1'') \<and>
   cache (snd (refreshToken ex_env_write_fails ex_state ''R0'')) =
      Some \<lparr>accessToken = Some ''A1'', refreshToken_field = ''R1'',
            expiresAt = 4000000 + 7200 * 1000, fetchedAt = 4000000\<rparr> \<and>
   tokens (snd (refreshToken ex_env_write_fails ex_state ''R0'')) = [ex_doc] \<and>
   fst (getAccessToken ex_env_write_fails ex_state_cached) = Inr (Some ''A1'') \<and>
   fst (readTokenFromDb ex_env_write_fails ex_state) = Inr (Some ''A1'')"
proof -
  have p: "post ex_env_write_fails (posts ex_state)
             (this_clientId ex_state, clientSecret ex_state, ''R0'') = Some ex_data"
    and p': "post ex_env_write_fails (posts ex_state_cached)
             (this_clientId ex_state_cached, clientSecret ex_state_cached, ''R0'') = Some ex_data"
    by (simp_all add: ex_defs)
  have w: "\<not> update_ok ex_env_write_fails (updates ex_state)"
    by (simp add: ex_defs)
  have a: "cache ex_state_cached = Some ex_cached \<and>
     clock ex_env_write_fails (ticks ex_state_cached) - fetchedAt ex_cached < TOKEN_CACHE_TTL_MS \<and>
     \<not> clock ex_env_write_fails (Suc (ticks ex_state_cached)) < expiresAt ex_cached - 60000 \<and>
     ''R0'' = refreshToken_field ex_cached"
    by (simp add: ex_defs TOKEN_CACHE_TTL_MS_def)
  have b: "fst (ensureConnected ex_env_write_fails ex_state) = Inr 0 \<and>
     find_ok ex_env_write_fails (finds ex_state) \<and>
     findOne (this_companyId ex_state) (tokens ex_state) = Some ex_doc \<and>
     clock ex_env_write_fails
         (case updatedAt ex_doc of Some u \<Rightarrow> ticks ex_state | None \<Rightarrow> Suc (ticks ex_state))
       > (case updatedAt ex_doc of Some u \<Rightarrow> u
          | None \<Rightarrow> clock ex_env_write_fails (ticks ex_state))
         + num_or (expires_in ex_doc) 86400 * 1000 - 60000 \<and> ''R0'' = refresh_token ex_doc"
    by (simp add: ex_defs tm_defs)
  have v: "str_or (data_refresh_token ex_data) ''R0'' = ''R1''"
    "num_or (data_expires_in ex_data) 86400 = 7200" "data_access_token ex_data = Some ''A1''"
    "clock ex_env_write_fails (ticks ex_state) = 4000000" "tokens ex_state = [ex_doc]"
    by (simp_all add: ex_defs str_or_def num_or_def)
  note t1 = C6_write_failure_swallowed [OF p, where c = ex_cached and h = 0 and doc = ex_doc]
  note t2 = C6_write_failure_swallowed [OF p', where c = ex_cached and h = 0 and doc = ex_doc]
  have c1: "fst (refreshToken ex_env_write_fails ex_state ''R0'') = Inr (Some ''A1'')"
    using t1 [THEN conjunct1] by (simp only: v)
  have c2: "cache (snd (refreshToken ex_env_write_fails ex_state ''R0'')) =
      Some \<lparr>accessToken = Some ''A1'', refreshToken_field = ''R1'',
            expiresAt = 4000000 + 7200 * 1000, fetchedAt = 4000000\<rparr>"
    using t1 [THEN conjunct2, THEN conjunct1] by (simp only: v)
  have c3: "tokens (snd (refreshToken ex_env_write_fails ex_state ''R0'')) = [ex_doc]"
    using t1 [THEN conjunct2, THEN conjunct2, THEN conjunct1] w by (simp only: v; blast)
  have c4: "fst (getAccessToken ex_env_write_fails ex_state_cached) = Inr (Some ''A1'')"
    using t2 [THEN conjunct2, THEN conjunct2, THEN conjunct2, THEN conjunct1] a
    by (simp only: v; blast)
  have c5: "fst (readTokenFromDb ex_env_write_fails ex_state) = Inr (Some ''A1'')"
    using t1 [THEN conjunct2, THEN conjunct2, THEN conjunct2, THEN conjunct2] b
    by (simp only: v; blast)
  show ?thesis
    using p w c1 c2 c3 c4 c5 by blast
qed

subsection \<open>No record\<close>

lemma readTokenFromDb_absent:
  assumes "findOne (this_companyId s) (tokens s) = None"
  shows "(\<exists>err. fst (readTokenFromDb e s) = Inl err) \<and>
         (fst (ensureConnected e s) = Inr h \<and> find_ok e (finds s)
            \<longrightarrow> fst (readTokenFromDb e s) = Inl (NotFoundError (this_companyId s)))"
proof (cases "ensureConnected e s")
  case (Pair r s1)
  have fr: "tokens s1 = tokens s" "this_companyId s1 = this_companyId s" "finds s1 = finds s"
    using ensureConnected_frame [of e s] Pair by simp_all
  show ?thesis
    using assms Pair by (cases r) (auto simp: readTokenFromDb_def fr Let_def)
qed

text \<open>
  Claim C7. With no cache entry, or one older than twenty minutes, and no record for
  the account in the store, \<^verbatim>\<open>getAccessToken\<close> never returns a token: it fails, and
  when the connection is there and the query is answered, it fails with the error that
  names the account as not found.
\<close>

theorem C7_absent_record_not_found:
  assumes "cache s = None \<or>
           (\<exists>c. cache s = Some c \<and> \<not> clock e (ticks s) - fetchedAt c < TOKEN_CACHE_TTL_MS)"
    and "findOne (this_companyId s) (tokens s) = None"
  shows "(\<exists>err. fst (getAccessToken e s) = Inl err) \<and>
         (fst (ensureConnected e s) = Inr h \<and> find_ok e (finds s)
            \<longrightarrow> fst (getAccessToken e s) = Inl (NotFoundError (this_companyId s)))"
  using assms(1)
proof
  assume "cache s = None"
  then show ?thesis
    using readTokenFromDb_absent [OF assms(2), of e h] by (simp add: getAccessToken_no_cache)
next
  assume "\<exists>c. cache s = Some c \<and> \<not> clock e (ticks s) - fetchedAt c < TOKEN_CACHE_TTL_MS"
  then obtain c where c: "cache s = Some c"
    "\<not> clock e (ticks s) - fetchedAt c < TOKEN_CACHE_TTL_MS" by blast
  let ?s1 = "s\<lparr>ticks := Suc (ticks s)\<rparr>"
  have f: "findOne (this_companyId ?s1) (tokens ?s1) = None"
    using assms(2) by simp
  have "fst (ensureConnected e ?s1) = fst (ensureConnected e s)"
    by (rule ensureConnected_fst_cong) simp_all
  then show ?thesis
    using readTokenFromDb_absent [OF f, of e h] by (simp add: getAccessToken_stale [OF c])
qed

text \<open>Claim C7 at the empty store.\<close>

theorem C7_witness:
  "cache ex_state_empty = None \<and>
   findOne (this_companyId ex_state_empty) (tokens ex_state_empty) = None \<and>
   fst (ensureConnected ex_env ex_state_empty) = Inr 0 \<and>
   find_ok ex_env (finds ex_state_empty) \<and>
   fst (getAccessToken ex_env ex_state_empty) = Inl (NotFoundError ''X'')"
proof -
  have h1: "cache ex_state_empty = None \<or>
      (\<exists>c. cache ex_state_empty = Some c \<and>
           \<not> clock ex_env (ticks ex_state_empty) - fetchedAt c < TOKEN_CACHE_TTL_MS)"
    by (simp add: ex_defs)
  have h2: "findOne (this_companyId ex_state_empty) (tokens ex_state_empty) = None"
    by (simp add: ex_defs)
  have h3: "fst (ensureConnected ex_env ex_state_empty) = Inr 0"
    "find_ok ex_env (finds ex_state_empty)" "this_companyId ex_state_empty = ''X''"
    "cache ex_state_empty = None"
    by (simp_all add: ex_defs tm_defs)
  show ?thesis
    using C7_absent_record_not_found [OF h1 h2, of 0] h2 h3 by simp
qed

subsection \<open>What is returned\<close>

text \<open>
  Against claim C8 as stated: nothing checks the token that is returned. When the
  endpoint answers a refresh with no \<^verbatim>\<open>access_token\<close>, \<^verbatim>\<open>getAccessToken\<close> returns
  \<^verbatim>\<open>undefined\<close>; when the stored record holds an empty access token, it returns the empty
  string.
\<close>

theorem C8_returns_missing_or_empty_token:
  "fst (getAccessToken ex_env_no_token ex_state_cached) = Inr None \<and>
   fst (getAccessToken ex_env ex_state_empty_token) = Inr (Some [])"
  by (simp add: tm_defs ex_defs)

lemma refreshToken_Inr:
  assumes "fst (refreshToken e s rt) = Inr v"
  shows "\<exists>d. post e (posts s) (this_clientId s, clientSecret s, rt) = Some d \<and>
             v = data_access_token d"
proof (cases "post e (posts s) (this_clientId s, clientSecret s, rt)")
  case None
  then show ?thesis using assms by (simp add: refreshToken_rejected)
next
  case (Some d)
  then show ?thesis using assms by (simp add: refreshToken_answered)
qed

lemma readTokenFromDb_Inr:
  assumes "fst (readTokenFromDb e s) = Inr v"
  shows "(\<exists>doc. findOne (this_companyId s) (tokens s) = Some doc \<and> v = access_token doc) \<or>
         (\<exists>k rt d. post e k (this_clientId s, clientSecret s, rt) = Some d \<and>
                   v = data_access_token d)"
proof (cases "ensureConnected e s")
  case (Pair r s1)
  have fr: "tokens s1 = tokens s" "this_companyId s1 = this_companyId s"
    "this_clientId s1 = this_clientId s" "clientSecret s1 = clientSecret s"
    using ensureConnected_frame [of e s] Pair by simp_all
  show ?thesis
  proof (cases r)
    case (Inl err)
    then show ?thesis using assms Pair by (simp add: readTokenFromDb_def)
  next
    case (Inr h)
    show ?thesis
    proof (cases "find_ok e (finds s1)")
      case False
      then show ?thesis using assms Pair Inr by (simp add: readTokenFromDb_def Let_def)
    next
      case True
      show ?thesis
      proof (cases "findOne (this_companyId s) (tokens s)")
        case None
        then show ?thesis
          using assms Pair Inr True by (simp add: readTokenFromDb_def Let_def fr)
      next
        case (Some doc)
        have ec: "ensureConnected e s = (Inr h, s1)" using Pair Inr by simp
        have f: "findOne (this_companyId s1) (tokens s1) = Some doc" using Some fr by simp
        note eq = readTokenFromDb_found [OF ec True f]
        show ?thesis
        proof (cases "fst (readTokenFromDb e s) = Inr (access_token doc)")
          case True
          then show ?thesis using assms Some by simp
        next
          case False
          then obtain s4 where "readTokenFromDb e s = refreshToken e s4 (refresh_token doc)"
            and "this_clientId s4 = this_clientId s" "clientSecret s4 = clientSecret s"
            using eq fr
            by (cases "updatedAt doc")
               (auto simp: Let_def Date_now_def split: if_splits)
          then show ?thesis
            using refreshToken_Inr [of e s4 "refresh_token doc" v] assms by auto
        qed
      qed
    qed
  qed
qed

text \<open>
  Claim C8, amended. A call to \<^verbatim>\<open>getAccessToken\<close> that returns, returns the access token
  as the cache entry, the account's record in the store, or an answer of the endpoint
  holds it; so what it returns is a non-empty string whenever the cached token, the
  record's token and the token of every answer of the endpoint are.
\<close>

theorem C8_returns_token_as_supplied:
  assumes "fst (getAccessToken e s) = Inr v"
  shows "((\<exists>c. cache s = Some c \<and> v = accessToken c) \<or>
          (\<exists>doc. findOne (this_companyId s) (tokens s) = Some doc \<and> v = access_token doc) \<or>
          (\<exists>k rt d. post e k (this_clientId s, clientSecret s, rt) = Some d \<and>
                    v = data_access_token d)) \<and>
         ((\<forall>c. cache s = Some c \<longrightarrow> nonempty_token (accessToken c)) \<and>
          (\<forall>doc. findOne (this_companyId s) (tokens s) = Some doc
                   \<longrightarrow> nonempty_token (access_token doc)) \<and>
          (\<forall>k x d. post e k x = Some d \<longrightarrow> nonempty_token (data_access_token d))
          \<longrightarrow> nonempty_token v)"
proof -
  have src: "(\<exists>c. cache s = Some c \<and> v = accessToken c) \<or>
          (\<exists>doc. findOne (this_companyId s) (tokens s) = Some doc \<and> v = access_token doc) \<or>
          (\<exists>k rt d. post e k (this_clientId s, clientSecret s, rt) = Some d \<and>
                    v = data_access_token d)"
  proof (cases "cache s")
    case None
    then show ?thesis
      using assms readTokenFromDb_Inr [of e s v] by (simp add: getAccessToken_no_cache)
  next
    case (Some c)
    show ?thesis
    proof (cases "clock e (ticks s) - fetchedAt c < TOKEN_CACHE_TTL_MS")
      case False
      then show ?thesis
        using assms readTokenFromDb_Inr [of e "s\<lparr>ticks := Suc (ticks s)\<rparr>" v]
        by (simp add: getAccessToken_stale [OF Some])
    next
      case True
      note g = getAccessToken_fresh [OF Some True]
      show ?thesis
      proof (cases "clock e (Suc (ticks s)) < expiresAt c - 60000")
        case True
        then show ?thesis using assms g Some by simp
      next
        case False
        let ?s2 = "s\<lparr>ticks := Suc (Suc (ticks s))\<rparr>"
        show ?thesis
        proof (cases "post e (posts ?s2) (this_clientId ?s2, clientSecret ?s2, refreshToken_field c)")
          case None
          then show ?thesis
            using assms g False
              readTokenFromDb_Inr [of e "?s2\<lparr>posts := Suc (posts ?s2)\<rparr>" v]
            by (simp add: refreshToken_rejected)
        next
          case (Some d)
          then have v: "v = data_access_token d"
            using assms g False by (simp add: refreshToken_answered)
          have "post e (posts s) (this_clientId s, clientSecret s, refreshToken_field c) = Some d"
            using Some by simp
          then show ?thesis using v by blast
        qed
      qed
    qed
  qed
  then show ?thesis by blast
qed

text \<open>The amended claim C8 at the store with one record: the stored token is returned.\<close>

theorem C8_witness:
  "fst (getAccessToken ex_env ex_state) = Inr (Some ''A0'') \<and>
   cache ex_state = None \<and>
   findOne (this_companyId ex_state) (tokens ex_state) = Some ex_doc \<and>
   nonempty_token (access_token ex_doc) \<and>
   nonempty_token (data_access_token ex_data) \<and>
   nonempty_token (Some ''A0'')"
proof -
  have h: "fst (getAccessToken ex_env ex_state) = Inr (Some ''A0'')"
    by (simp add: tm_defs ex_defs)
  have a: "\<forall>c. cache ex_state = Some c \<longrightarrow> nonempty_token (accessToken c)"
    and a': "cache ex_state = None"
    by (simp_all add: ex_defs)
  have b: "\<forall>doc. findOne (this_companyId ex_state) (tokens ex_state) = Some doc
            \<longrightarrow> nonempty_token (access_token doc)"
    and b': "findOne (this_companyId ex_state) (tokens ex_state) = Some ex_doc"
      "nonempty_token (access_token ex_doc)"
    by (simp_all add: ex_defs nonempty_token_def)
  have c: "\<forall>k x d. post ex_env k x = Some d \<longrightarrow> nonempty_token (data_access_token d)"
    and c': "nonempty_token (data_access_token ex_data)"
    by (auto simp add: ex_defs nonempty_token_def)
  show ?thesis
    using C8_returns_token_as_supplied [OF h] h a b c a' b' c' by blast
qed

subsection \<open>Lifetimes and the missing \<^verbatim>\<open>updatedAt\<close>\<close>

text \<open>
  Claim C10. For a record without \<^verbatim>\<open>updatedAt\<close> the read takes the clock for it
  (line 124), so the expiry is the instant of the read plus the lifetime. When the
  lifetime in effect is above 60 seconds, and the next reading of the clock (line 128,
  with no suspension in between) is no more than a second later, the record is not sent
  to the refresh: no request is issued, the stored token is cached with that expiry and
  returned. Nothing else of the record, \<^verbatim>\<open>createdAt\<close> included, is looked at.
\<close>

theorem C10_no_updatedAt_never_refreshed:
  assumes "fst (ensureConnected e s) = Inr h" and "find_ok e (finds s)"
    and "findOne (this_companyId s) (tokens s) = Some doc"
    and "updatedAt doc = None"
    and "num_or (expires_in doc) 86400 > 60"
    and "clock e (Suc (ticks s)) - clock e (ticks s) \<le> 1000"
  shows "fst (readTokenFromDb e s) = Inr (access_token doc) \<and>
    posts (snd (readTokenFromDb e s)) = posts s \<and>
    cache (snd (readTokenFromDb e s)) =
      Some \<lparr>accessToken = access_token doc, refreshToken_field = refresh_token doc,
            expiresAt = clock e (ticks s) + num_or (expires_in doc) 86400 * 1000,
            fetchedAt = clock e (Suc (Suc (ticks s)))\<rparr>"
proof -
  have "num_or (expires_in doc) 86400 * 1000 \<ge> 61000"
    using assms(5) by simp
  then have "\<not> clock e (Suc (ticks s))
       > clock e (ticks s) + num_or (expires_in doc) 86400 * 1000 - 60000"
    using assms(6) by linarith
  then have "\<not> clock e (case updatedAt doc of Some u \<Rightarrow> ticks s | None \<Rightarrow> Suc (ticks s))
       > (case updatedAt doc of Some u \<Rightarrow> u | None \<Rightarrow> clock e (ticks s))
         + num_or (expires_in doc) 86400 * 1000 - 60000"
    by (simp add: assms(4))
  from readTokenFromDb_loaded [OF assms(1-3) this] show ?thesis
    by (simp add: assms(4) ensureConnected_frame)
qed

text \<open>Claim C10 at a record created at instant 0 with a lifetime of an hour, read at
  instant 4000000, more than six minutes after the hour has passed.\<close>

theorem C10_witness:
  "updatedAt ex_doc_undated = None \<and> createdAt ex_doc_undated = Some 0 \<and>
   expires_in ex_doc_undated = Some 3600 \<and> clock ex_env_late 0 = 4000000 \<and>
   fst (readTokenFromDb ex_env_late ex_state_undated) = Inr (Some ''A0'') \<and>
   posts (snd (readTokenFromDb ex_env_late ex_state_undated)) = 0 \<and>
   cache (snd (readTokenFromDb ex_env_late ex_state_undated)) =
      Some \<lparr>accessToken = Some ''A0'', refreshToken_field = ''R0'',
            expiresAt = 4000000 + 3600 * 1000, fetchedAt = 4000000\<rparr>"
proof -
  have h1: "fst (ensureConnected ex_env_late ex_state_undated) = Inr 0"
    and h2: "find_ok ex_env_late (finds ex_state_undated)"
    and h3: "findOne (this_companyId ex_state_undated) (tokens ex_state_undated)
             = Some ex_doc_undated"
    and h4: "updatedAt ex_doc_undated = None"
    and h5: "num_or (expires_in ex_doc_undated) 86400 > 60"
    and h6: "clock ex_env_late (Suc (ticks ex_state_undated))
             - clock ex_env_late (ticks ex_state_undated) \<le> 1000"
    by (simp_all add: ex_defs tm_defs)
  have v: "access_token ex_doc_undated = Some ''A0''" "refresh_token ex_doc_undated = ''R0''"
    "num_or (expires_in ex_doc_undated) 86400 = 3600" "posts ex_state_undated = 0"
    "clock ex_env_late (ticks ex_state_undated) = 4000000"
    "clock ex_env_late (Suc (Suc (ticks ex_state_undated))) = 4000000"
    "createdAt ex_doc_undated = Some 0"
    "clock ex_env_late 0 = 4000000"
    by (simp_all add: ex_defs num_or_def)
  have v2: "expires_in ex_doc_undated = Some 3600"
    by (simp add: ex_defs ex_doc_undated_def)
  show ?thesis
    using C10_no_updatedAt_never_refreshed [OF h1 h2 h3 h4 h5 h6] h4 v2 by (simp add: v num_or_def)
qed

text \<open>
  Claim C9. A lifetime of 0 counts as a missing one, and both as 86400 seconds. In a
  refresh: the cached expiry is the instant of the refresh plus 86400 seconds, and the
  lifetime written to the record is 86400. In a read from the store: the record is sent
  to the refresh exactly when the clock is past its \<^verbatim>\<open>updatedAt\<close> (or, without one, the
  instant of the read) plus 86400 seconds less 60, and otherwise it is cached with the
  expiry \<^verbatim>\<open>updatedAt\<close> plus 86400 seconds.
\<close>

theorem C9_zero_lifetime_is_default:
  "(post e (posts s) (this_clientId s, clientSecret s, rt) = Some d \<and>
    (data_expires_in d = None \<or> data_expires_in d = Some 0)
    \<longrightarrow> cache (snd (refreshToken e s rt)) =
          Some \<lparr>accessToken = data_access_token d,
                refreshToken_field = str_or (data_refresh_token d) rt,
                expiresAt = clock e (ticks s) + 86400 * 1000,
                fetchedAt = clock e (ticks s)\<rparr> \<and>
        (fst (ensureConnected e s) = Inr h \<and> update_ok e (updates s) \<and>
         findOne (this_companyId s) (tokens s) = Some doc
         \<longrightarrow> (\<exists>doc'. findOne (this_companyId s) (tokens (snd (refreshToken e s rt))) = Some doc' \<and>
                    expires_in doc' = Some 86400)))
   \<and>
   (fst (ensureConnected e s) = Inr h \<and> find_ok e (finds s) \<and>
    findOne (this_companyId s) (tokens s) = Some doc \<and>
    (expires_in doc = None \<or> expires_in doc = Some 0)
    \<longrightarrow> posts (snd (readTokenFromDb e s)) =
          (if clock e (case updatedAt doc of Some u \<Rightarrow> ticks s | None \<Rightarrow> Suc (ticks s))
                > (case updatedAt doc of Some u \<Rightarrow> u | None \<Rightarrow> clock e (ticks s))
                  + 86400 * 1000 - 60000
           then Suc (posts s) else posts s) \<and>
        (\<not> clock e (case updatedAt doc of Some u \<Rightarrow> ticks s | None \<Rightarrow> Suc (ticks s))
                > (case updatedAt doc of Some u \<Rightarrow> u | None \<Rightarrow> clock e (ticks s))
                  + 86400 * 1000 - 60000
         \<longrightarrow> (\<exists>c. cache (snd (readTokenFromDb e s)) = Some c \<and>
                  expiresAt c = (case updatedAt doc of Some u \<Rightarrow> u | None \<Rightarrow> clock e (ticks s))
                                + 86400 * 1000)))"
proof (intro conjI impI)
  assume a: "post e (posts s) (this_clientId s, clientSecret s, rt) = Some d \<and>
    (data_expires_in d = None \<or> data_expires_in d = Some 0)"
  then have p: "post e (posts s) (this_clientId s, clientSecret s, rt) = Some d"
    and n: "num_or (data_expires_in d) 86400 = 86400"
    by (auto simp: num_or_def)
  show "cache (snd (refreshToken e s rt)) =
          Some \<lparr>accessToken = data_access_token d,
                refreshToken_field = str_or (data_refresh_token d) rt,
                expiresAt = clock e (ticks s) + 86400 * 1000,
                fetchedAt = clock e (ticks s)\<rparr>"
    by (simp add: refreshToken_answered [OF p] write_through_cache n)
  assume w: "fst (ensureConnected e s) = Inr h \<and> update_ok e (updates s) \<and>
         findOne (this_companyId s) (tokens s) = Some doc"
  then have "expires_in (the (findOne (this_companyId s) (tokens (snd (refreshToken e s rt)))))
         = Some 86400 \<and>
       findOne (this_companyId s) (tokens (snd (refreshToken e s rt))) \<noteq> None"
    using refreshToken_stored [OF p, of h doc] by (simp add: n)
  then show "\<exists>doc'. findOne (this_companyId s) (tokens (snd (refreshToken e s rt))) = Some doc' \<and>
                    expires_in doc' = Some 86400"
    by auto
next
  assume b: "fst (ensureConnected e s) = Inr h \<and> find_ok e (finds s) \<and>
    findOne (this_companyId s) (tokens s) = Some doc \<and>
    (expires_in doc = None \<or> expires_in doc = Some 0)"
  then have n: "num_or (expires_in doc) 86400 = 86400"
    by (auto simp: num_or_def)
  let ?k = "case updatedAt doc of Some u \<Rightarrow> ticks s | None \<Rightarrow> Suc (ticks s)"
  let ?upd = "case updatedAt doc of Some u \<Rightarrow> u | None \<Rightarrow> clock e (ticks s)"
  show "posts (snd (readTokenFromDb e s)) =
          (if clock e ?k > ?upd + 86400 * 1000 - 60000 then Suc (posts s) else posts s)"
  proof (cases "clock e ?k > ?upd + 86400 * 1000 - 60000")
    case True
    then have "clock e ?k > ?upd + num_or (expires_in doc) 86400 * 1000 - 60000"
      by (simp add: n)
    from readTokenFromDb_near_expiry [OF _ _ _ this, of h] b True show ?thesis
      by (simp add: refreshToken_posts ensureConnected_frame)
  next
    case False
    then have "\<not> clock e ?k > ?upd + num_or (expires_in doc) 86400 * 1000 - 60000"
      by (simp add: n)
    from readTokenFromDb_loaded [OF _ _ _ this, of h] b False show ?thesis
      by (simp add: ensureConnected_frame)
  qed
  assume f: "\<not> clock e ?k > ?upd + 86400 * 1000 - 60000"
  then have "\<not> clock e ?k > ?upd + num_or (expires_in doc) 86400 * 1000 - 60000"
    by (simp add: n)
  from readTokenFromDb_loaded [OF _ _ _ this, of h] b
  show "\<exists>c. cache (snd (readTokenFromDb e s)) = Some c \<and> expiresAt c = ?upd + 86400 * 1000"
    by (simp add: n)
qed

text \<open>Claim C9 at an answer of the endpoint and at a record whose lifetime is 0.\<close>

theorem C9_witness:
  "post ex_env_zero_lifetime 0 (''c'', ''k'', ''R0'') = Some (ex_data\<lparr>data_expires_in := Some 0\<rparr>) \<and>
   cache (snd (refreshToken ex_env_zero_lifetime ex_state ''R0'')) =
     Some \<lparr>accessToken = Some ''A1'', refreshToken_field = ''R1'',
           expiresAt = 3540000 + 86400 * 1000, fetchedAt = 3540000\<rparr> \<and>
   (\<exists>doc'. findOne ''X'' (tokens (snd (refreshToken ex_env_zero_lifetime ex_state ''R0'')))
             = Some doc' \<and> expires_in doc' = Some 86400) \<and>
   findOne ''X'' (tokens ex_state_zero_lifetime) = Some (ex_doc\<lparr>expires_in := Some 0\<rparr>) \<and>
   posts (snd (readTokenFromDb ex_env ex_state_zero_lifetime)) = 0 \<and>
   (\<exists>c. cache (snd (readTokenFromDb ex_env ex_state_zero_lifetime)) = Some c \<and>
        expiresAt c = 86400 * 1000)"
proof -
  let ?d = "ex_data\<lparr>data_expires_in := Some 0\<rparr>"
  let ?doc = "ex_doc\<lparr>expires_in := Some 0\<rparr>"
  have a: "post ex_env_zero_lifetime (posts ex_state)
             (this_clientId ex_state, clientSecret ex_state, ''R0'') = Some ?d \<and>
           (data_expires_in ?d = None \<or> data_expires_in ?d = Some 0)"
    by (simp add: ex_defs)
  have w: "fst (ensureConnected ex_env_zero_lifetime ex_state) = Inr 0 \<and>
           update_ok ex_env_zero_lifetime (updates ex_state) \<and>
           findOne (this_companyId ex_state) (tokens ex_state) = Some ex_doc"
    by (simp add: ex_defs tm_defs)
  have b: "fst (ensureConnected ex_env ex_state_zero_lifetime) = Inr 0 \<and>
           find_ok ex_env (finds ex_state_zero_lifetime) \<and>
           findOne (this_companyId ex_state_zero_lifetime) (tokens ex_state_zero_lifetime)
             = Some ?doc \<and>
           (expires_in ?doc = None \<or> expires_in ?doc = Some 0)"
    by (simp add: ex_defs tm_defs)
  have v: "this_companyId ex_state = ''X''" "this_companyId ex_state_zero_lifetime = ''X''"
    "posts ex_state = 0" "this_clientId ex_state = ''c''" "clientSecret ex_state = ''k''"
    "ticks ex_state = 0" "clock ex_env_zero_lifetime 0 = 3540000"
    "data_access_token ?d = Some ''A1''" "str_or (data_refresh_token ?d) ''R0'' = ''R1''"
    "str_or (data_refresh_token ex_data) ''R0'' = ''R1''"
    "posts ex_state_zero_lifetime = 0" "ticks ex_state_zero_lifetime = 0"
    "updatedAt ?doc = Some 0" "clock ex_env 0 = 3540000"
    by (simp_all add: ex_defs str_or_def)
  note t1 = C9_zero_lifetime_is_default
              [where e = ex_env_zero_lifetime and s = ex_state and rt = "''R0''" and d = ?d
                 and h = 0 and doc = ex_doc, THEN conjunct1, rule_format, OF a]
  note t2 = C9_zero_lifetime_is_default
              [where e = ex_env and s = ex_state_zero_lifetime and h = 0 and doc = ?doc,
               THEN conjunct2, rule_format, OF b]
  have c1: "cache (snd (refreshToken ex_env_zero_lifetime ex_state ''R0'')) =
     Some \<lparr>accessToken = Some ''A1'', refreshToken_field = ''R1'',
           expiresAt = 3540000 + 86400 * 1000, fetchedAt = 3540000\<rparr>"
    using t1 [THEN conjunct1] by (simp add: v)
  have c2: "\<exists>doc'. findOne ''X'' (tokens (snd (refreshToken ex_env_zero_lifetime ex_state ''R0'')))
             = Some doc' \<and> expires_in doc' = Some 86400"
    using t1 [THEN conjunct2] w by (simp add: v)
  have c3: "posts (snd (readTokenFromDb ex_env ex_state_zero_lifetime)) = 0"
    using t2 [THEN conjunct1] by (simp add: v)
  have c4: "\<exists>c. cache (snd (readTokenFromDb ex_env ex_state_zero_lifetime)) = Some c \<and>
        expiresAt c = 86400 * 1000"
    using t2 [THEN conjunct2] by (simp add: v)
  show ?thesis
    using a b c1 c2 c3 c4 by (simp add: v)
qed

subsection \<open>Concurrent calls\<close>

text \<open>The two models agree on a call that runs alone: the events of one call, in
  order, leave the caller and the fields as \<open>ensureConnected\<close> does.\<close>

lemma lone_call_agrees:
  assumes "mongoClient s = None" "connecting s = None" "connects s = 0"
  shows "callers (run (lone_call e) (never_connected (mongoImported s))) 0 =
           Done (case fst (ensureConnected e s) of Inl err \<Rightarrow> Inl err | Inr h \<Rightarrow> Inr (Some h))"
    and "mongoClient_a (run (lone_call e) (never_connected (mongoImported s))) =
           mongoClient (snd (ensureConnected e s))"
    and "connecting_a (run (lone_call e) (never_connected (mongoImported s))) = None"
    and "connecting (snd (ensureConnected e s)) = None"
    and "mongoImported_a (run (lone_call e) (never_connected (mongoImported s))) =
           mongoImported (snd (ensureConnected e s))"
    and "connects_a (run (lone_call e) (never_connected (mongoImported s))) =
           connects (snd (ensureConnected e s))"
  using assms
  by (cases "mongoImported s"; cases "installed e"; cases "connect_ok e 0";
      simp add: lone_call_def never_connected_def call_def import_settles_def attempt_resumes_def
        connect_settles_def caller_resumes_def ensureConnected_def connect_attempt_def
        getMongoClient_def Let_def)+

text \<open>Every event keeps the invariant, part by part.\<close>

lemma flight_inv_init: "flight_inv (never_connected b)"
  by (simp add: flight_inv_def never_connected_def fresh_ids_def one_handle_def marked_def early_def
      late_def resolved_0_def awaited_def one_waiter_def done_0_def)

lemma flight_inv_call:
  assumes "flight_inv s"
  shows "flight_inv (call s)"
proof -
  have a: "fresh_ids s" "one_handle s" "marked s" "early s" "late s" "resolved_0 s"
    "awaited s" "one_waiter s" "done_0 s"
    using assms by (simp_all add: flight_inv_def)
  have "fresh_ids (call s)"
    using a(1) by (auto simp: fresh_ids_def call_def Let_def split: option.splits)
  moreover have "one_handle (call s)"
    using a(2) by (auto simp: one_handle_def call_def Let_def split: option.splits)
  moreover have "marked (call s)"
    using a(3) by (auto simp: marked_def call_def Let_def split: option.splits if_splits)
  moreover have "early (call s)"
    using a(4) by (auto simp: early_def call_def Let_def split: option.splits if_splits)
  moreover have "late (call s)"
    using a(5) by (auto simp: late_def call_def Let_def split: option.splits if_splits)
  moreover have "resolved_0 (call s)"
    using a(6) by (auto simp: resolved_0_def call_def Let_def split: option.splits if_splits)
  moreover have "awaited (call s)"
    using a(7) by (auto simp: awaited_def call_def Let_def split: option.splits if_splits)
  moreover have "one_waiter (call s)"
    using a(7,8)
    by (auto simp: awaited_def one_waiter_def call_def Let_def split: option.splits if_splits)
  moreover have "done_0 (call s)"
    using a(2,9)
    by (auto simp: done_0_def one_handle_def call_def Let_def split: option.splits if_splits)
  ultimately show ?thesis by (simp add: flight_inv_def)
qed

lemma flight_inv_import_settles:
  assumes "flight_inv s"
  shows "flight_inv (import_settles p ok s)"
proof -
  have a: "fresh_ids s" "one_handle s" "marked s" "early s" "late s" "resolved_0 s"
    "awaited s" "one_waiter s" "done_0 s"
    using assms by (simp_all add: flight_inv_def)
  have "fresh_ids (import_settles p ok s)"
    using a(1) by (auto simp: fresh_ids_def import_settles_def)
  moreover have "one_handle (import_settles p ok s)"
    using a(2) by (auto simp: one_handle_def import_settles_def)
  moreover have "marked (import_settles p ok s)"
    using a(3) by (auto simp: marked_def import_settles_def)
  moreover have "early (import_settles p ok s)"
    using a(4) by (auto simp: early_def import_settles_def)
  moreover have "late (import_settles p ok s)"
    using a(5) by (auto simp: late_def import_settles_def)
  moreover have "resolved_0 (import_settles p ok s)"
    using a(6) by (auto simp: resolved_0_def import_settles_def)
  moreover have "awaited (import_settles p ok s)"
    using a(7) by (auto simp: awaited_def import_settles_def)
  moreover have "one_waiter (import_settles p ok s)"
    using a(8) by (auto simp: one_waiter_def import_settles_def)
  moreover have "done_0 (import_settles p ok s)"
    using a(9) by (auto simp: done_0_def import_settles_def)
  ultimately show ?thesis by (simp add: flight_inv_def)
qed

lemma flight_inv_attempt_resumes:
  assumes "flight_inv s"
  shows "flight_inv (attempt_resumes p s)"
proof -
  have a: "fresh_ids s" "one_handle s" "marked s" "early s" "late s" "resolved_0 s"
    "awaited s" "one_waiter s" "done_0 s"
    using assms by (simp_all add: flight_inv_def)
  have "fresh_ids (attempt_resumes p s)"
    using a(1) by (auto simp: fresh_ids_def attempt_resumes_def split: attempt.splits)
  moreover have "one_handle (attempt_resumes p s)"
    using a(2,4) by (auto simp: one_handle_def early_def attempt_resumes_def split: attempt.splits)
  moreover have "marked (attempt_resumes p s)"
    using a(3) by (auto simp: marked_def attempt_resumes_def split: attempt.splits)
  moreover have "early (attempt_resumes p s)"
  proof (cases "attempts s p")
    case (AwaitingMC ok)
    have m: "\<And>q. attempts s q = Importing \<or> (\<exists>b. attempts s q = AwaitingMC b) \<Longrightarrow> q = p"
      using a(3) AwaitingMC unfolding marked_def by (metis in_flight.simps(3,4) option.inject)
    show ?thesis
      using a(4) AwaitingMC m by (auto simp: early_def attempt_resumes_def)
  qed (use a(4) in \<open>simp_all add: attempt_resumes_def\<close>)
  moreover have "late (attempt_resumes p s)"
    using a(5) by (auto simp: late_def attempt_resumes_def split: attempt.splits)
  moreover have "resolved_0 (attempt_resumes p s)"
    using a(6) by (auto simp: resolved_0_def attempt_resumes_def split: attempt.splits)
  moreover have "awaited (attempt_resumes p s)"
    using a(7) by (auto simp: awaited_def attempt_resumes_def split: attempt.splits)
  moreover have "one_waiter (attempt_resumes p s)"
    using a(8) by (auto simp: one_waiter_def attempt_resumes_def split: attempt.splits)
  moreover have "done_0 (attempt_resumes p s)"
    using a(9) by (auto simp: done_0_def attempt_resumes_def split: attempt.splits)
  ultimately show ?thesis by (simp add: flight_inv_def)
qed

lemma flight_inv_connect_settles:
  assumes "flight_inv s"
  shows "flight_inv (connect_settles p ok s)"
proof -
  have a: "fresh_ids s" "one_handle s" "marked s" "early s" "late s" "resolved_0 s"
    "awaited s" "one_waiter s" "done_0 s"
    using assms by (simp_all add: flight_inv_def)
  have "fresh_ids (connect_settles p ok s)"
    using a(1) by (auto simp: fresh_ids_def connect_settles_def)
  moreover have "one_handle (connect_settles p ok s)"
    using a(2) by (auto simp: one_handle_def connect_settles_def)
  moreover have "marked (connect_settles p ok s)"
    using a(3) by (auto simp: marked_def connect_settles_def)
  moreover have "early (connect_settles p ok s)"
    using a(4) by (auto simp: early_def connect_settles_def)
  moreover have "late (connect_settles p ok s)"
    using a(5) by (auto simp: late_def connect_settles_def)
  moreover have "resolved_0 (connect_settles p ok s)"
    using a(2,5,6)
    by (auto simp: resolved_0_def late_def one_handle_def connect_settles_def)
  moreover have "awaited (connect_settles p ok s)"
    using a(7) by (auto simp: awaited_def connect_settles_def)
  moreover have "one_waiter (connect_settles p ok s)"
    using a(8) by (auto simp: one_waiter_def connect_settles_def)
  moreover have "done_0 (connect_settles p ok s)"
    using a(9) by (auto simp: done_0_def connect_settles_def)
  ultimately show ?thesis by (simp add: flight_inv_def)
qed

lemma flight_inv_caller_resumes:
  assumes "flight_inv s"
  shows "flight_inv (caller_resumes i s)"
proof -
  have a: "fresh_ids s" "one_handle s" "marked s" "early s" "late s" "resolved_0 s"
    "awaited s" "one_waiter s" "done_0 s"
    using assms by (simp_all add: flight_inv_def)
  have "fresh_ids (caller_resumes i s)"
    using a(1) by (auto simp: fresh_ids_def caller_resumes_def split: caller.splits attempt.splits)
  moreover have "one_handle (caller_resumes i s)"
    using a(2) by (auto simp: one_handle_def caller_resumes_def split: caller.splits attempt.splits)
  moreover have "marked (caller_resumes i s)"
    using a(3,7)
    by (fastforce simp: marked_def awaited_def caller_resumes_def
        split: caller.splits attempt.splits)
  moreover have "early (caller_resumes i s)"
    using a(4) by (auto simp: early_def caller_resumes_def split: caller.splits attempt.splits)
  moreover have "late (caller_resumes i s)"
    using a(5) by (auto simp: late_def caller_resumes_def split: caller.splits attempt.splits)
  moreover have "resolved_0 (caller_resumes i s)"
    using a(6) by (auto simp: resolved_0_def caller_resumes_def split: caller.splits attempt.splits)
  moreover have "awaited (caller_resumes i s)"
    using a(7,8)
    by (auto simp: awaited_def one_waiter_def caller_resumes_def
        split: caller.splits attempt.splits)
  moreover have "one_waiter (caller_resumes i s)"
    using a(8) by (auto simp: one_waiter_def caller_resumes_def split: caller.splits attempt.splits)
  moreover have "done_0 (caller_resumes i s)"
    using a(5,6,9)
    by (auto simp: done_0_def late_def resolved_0_def caller_resumes_def
        split: caller.splits attempt.splits)
  ultimately show ?thesis by (simp add: flight_inv_def)
qed

lemma flight_inv_step: "flight_inv s \<Longrightarrow> flight_inv (step ev s)"
  by (cases ev)
     (simp_all add: flight_inv_call flight_inv_import_settles flight_inv_attempt_resumes flight_inv_connect_settles
        flight_inv_caller_resumes)

lemma flight_inv_run: "flight_inv s \<Longrightarrow> flight_inv (run evs s)"
  by (induction evs arbitrary: s) (simp_all add: flight_inv_step)

lemma call_joins:
  assumes "one_handle s" "marked s" "in_flight (attempts s p)"
  shows "started (call s) = started s \<and> connects_a (call s) = connects_a s \<and>
         (callers (call s) (called s) = Returned p \<or>
          callers (call s) (called s) = Done (Inr (Some 0)))"
proof -
  have c: "connecting_a s = Some p"
    using assms(2,3) by (simp add: marked_def)
  show ?thesis
    using assms(1) c by (auto simp: call_def Let_def one_handle_def split: option.splits)
qed

text \<open>Runs in which every event succeeds.\<close>

lemma success_inv_init: "success_inv (never_connected b)"
  by (simp add: success_inv_def flight_inv_init)
     (simp add: never_connected_def known_def unfailed_def one_attempt_def)

lemma known_step:
  assumes "flight_inv s" "known s"
  shows "known (step ev s)"
proof (cases ev)
  case Call
  then show ?thesis
    using assms(2)
    by (auto simp: known_def call_def Let_def less_Suc_eq split: option.splits)
next
  case (ImportSettles p ok)
  then show ?thesis
    using assms(2) by (auto simp: known_def import_settles_def)
next
  case (AttemptResumes p)
  then show ?thesis
    using assms(2) by (auto simp: known_def attempt_resumes_def split: attempt.splits)
next
  case (ConnectSettles p ok)
  then show ?thesis
    using assms(2) by (auto simp: known_def connect_settles_def)
next
  case (CallerResumes i)
  then show ?thesis
    using assms(2)
    by (auto simp: known_def caller_resumes_def split: caller.splits attempt.splits)
qed

lemma unfailed_step:
  assumes "unfailed s" "succeeds ev"
  shows "unfailed (step ev s)"
proof (cases ev)
  case Call
  then show ?thesis
    using assms(1)
    by (auto simp: unfailed_def call_def Let_def split: option.splits)
next
  case (ImportSettles p ok)
  then show ?thesis
    using assms by (auto simp: unfailed_def import_settles_def)
next
  case (AttemptResumes p)
  then show ?thesis
    using assms(1) by (auto simp: unfailed_def attempt_resumes_def split: attempt.splits)
next
  case (ConnectSettles p ok)
  then show ?thesis
    using assms by (auto simp: unfailed_def connect_settles_def)
next
  case (CallerResumes i)
  then show ?thesis
    using assms(1)
    by (auto simp: unfailed_def caller_resumes_def split: caller.splits attempt.splits)
qed

lemma one_attempt_step:
  assumes "flight_inv s" "known s" "unfailed s" "one_attempt s"
  shows "one_attempt (step ev s)"
proof (cases ev)
  case Call
  then show ?thesis
    using assms(4)
    by (auto simp: one_attempt_def call_def Let_def split: option.splits)
next
  case (ImportSettles p ok)
  then show ?thesis
    using assms(4) by (auto simp: one_attempt_def import_settles_def)
next
  case (AttemptResumes p)
  have "attempts s p \<noteq> NotStarted \<Longrightarrow> called s \<noteq> 0"
    using assms(1,4) unfolding flight_inv_def fresh_ids_def one_attempt_def
    by (metis le0)
  then show ?thesis
    using AttemptResumes assms(4)
    by (auto simp: one_attempt_def attempt_resumes_def split: attempt.splits)
next
  case (ConnectSettles p ok)
  then show ?thesis
    using assms(4) by (auto simp: one_attempt_def connect_settles_def)
next
  case (CallerResumes i)
  have l: "late s" using assms(1) by (simp add: flight_inv_def)
  have "\<And>p r. attempts s p = Settled r \<Longrightarrow> mongoClient_a s \<noteq> None"
  proof -
    fix p r assume a: "attempts s p = Settled r"
    then obtain v where "r = Inr v"
      using assms(3) by (cases r) (auto simp: unfailed_def)
    then show "mongoClient_a s \<noteq> None"
      using l a unfolding late_def by blast
  qed
  then show ?thesis
    using CallerResumes assms(4)
    by (auto simp: one_attempt_def caller_resumes_def split: caller.splits attempt.splits)
qed

lemma success_inv_step:
  assumes "success_inv s" "succeeds ev"
  shows "success_inv (step ev s)"
  using assms
  by (simp add: success_inv_def flight_inv_step known_step unfailed_step one_attempt_step)

lemma success_inv_run:
  "success_inv s \<Longrightarrow> list_all succeeds evs \<Longrightarrow> success_inv (run evs s)"
  by (induction evs arbitrary: s) (simp_all add: success_inv_step)

lemma agreement:
  assumes "success_inv s" "callers s i = Done r"
  shows "r = Inr (Some 0) \<and> connects_a s = 1"
proof -
  have a: "one_handle s" "done_0 s" "unfailed s"
    using assms(1) by (simp_all add: success_inv_def flight_inv_def)
  obtain v where v: "r = Inr v"
    using a(3) assms(2) by (cases r) (auto simp: unfailed_def)
  then have "v = Some 0" "mongoClient_a s \<noteq> None"
    using a(2) assms(2) by (auto simp: done_0_def)
  then show ?thesis
    using v a(1) by (auto simp: one_handle_def)
qed

lemma nothing_remains:
  assumes "success_inv s" "i < called s" "remaining s i = 0"
  shows "callers s i = Done (Inr (Some 0))"
proof (cases "callers s i")
  case NotCalled
  then show ?thesis
    using assms(1,2) by (auto simp: success_inv_def known_def)
next
  case (Done r)
  then show ?thesis using agreement [OF assms(1) Done] by simp
qed (use assms(3) in \<open>simp_all add: remaining_def\<close>)

lemma waits_for:
  assumes "success_inv s" "callers s i = Awaiting p \<or> callers s i = Returned p"
  shows "attempts s p = Importing \<or> attempts s p = AwaitingMC True \<or> attempts s p = Connecting \<or>
         attempts s p = Settled (Inr (Some 0))"
proof -
  have a: "known s" "unfailed s" "resolved_0 s"
    using assms(1) by (simp_all add: success_inv_def flight_inv_def)
  have n: "attempts s p \<noteq> NotStarted"
    using a(1) assms(2) unfolding known_def by blast
  show ?thesis
  proof (cases "attempts s p")
    case (AwaitingMC ok)
    then show ?thesis using a(2) by (cases ok) (auto simp: unfailed_def)
  next
    case (Settled r)
    then show ?thesis
      using a(2,3) by (cases r) (auto simp: unfailed_def resolved_0_def)
  qed (use n in simp_all)
qed

lemma next_event_progress:
  assumes "success_inv s" "0 < remaining s i"
  shows "remaining (step (next_event s i) s) i < remaining s i"
proof -
  obtain p where w: "callers s i = Awaiting p \<or> callers s i = Returned p"
    using assms(2) by (cases "callers s i") (auto simp: remaining_def)
  from waits_for [OF assms(1) w] w show ?thesis
    by (auto simp: remaining_def next_event_def import_settles_def attempt_resumes_def
        connect_settles_def caller_resumes_def)
qed

lemma remaining_step:
  assumes "success_inv s" "i < called s"
  shows "remaining (step ev s) i \<le> remaining s i"
proof -
  have k: "known s" using assms(1) by (simp add: success_inv_def)
  have c: "\<And>p. callers s i = Awaiting p \<or> callers s i = Returned p \<Longrightarrow> p \<noteq> started s"
    using k unfolding known_def by blast
  show ?thesis
  proof (cases ev)
    case Call
    then show ?thesis
      using assms(2) c
      by (cases "callers s i")
         (auto simp: remaining_def call_def Let_def split: option.splits)
  next
    case (ImportSettles p ok)
    then show ?thesis
      by (cases "callers s i") (auto simp: remaining_def import_settles_def)
  next
    case (AttemptResumes p)
    then show ?thesis
      by (cases "callers s i")
         (auto simp: remaining_def attempt_resumes_def split: attempt.splits)
  next
    case (ConnectSettles p ok)
    then show ?thesis
      by (cases "callers s i") (auto simp: remaining_def connect_settles_def)
  next
    case (CallerResumes j)
    then show ?thesis
      by (cases "callers s i")
         (auto simp: remaining_def caller_resumes_def split: caller.splits attempt.splits)
  qed
qed

lemma run_append: "run (xs @ ys) s = run ys (run xs s)"
  by (induction xs arbitrary: s) simp_all

lemma caller_resumes_settled:
  assumes "\<forall>i p. callers s i = Awaiting p \<or> callers s i = Returned p \<longrightarrow> attempts s p = Settled r"
  shows "callers (caller_resumes j s) = (callers s)(j := resolve r (callers s j))"
    and "attempts (caller_resumes j s) = attempts s"
    and "started (caller_resumes j s) = started s"
    and "connects_a (caller_resumes j s) = connects_a s"
  using assms
  by (cases "callers s j"; fastforce simp: caller_resumes_def split: attempt.splits)+

lemma sweep:
  assumes "\<forall>i p. callers s i = Awaiting p \<or> callers s i = Returned p \<longrightarrow> attempts s p = Settled r"
  shows "callers (run (map CallerResumes js) s) i =
           (if i \<in> set js then resolve r (callers s i) else callers s i) \<and>
         started (run (map CallerResumes js) s) = started s \<and>
         connects_a (run (map CallerResumes js) s) = connects_a s"
  using assms
proof (induction js arbitrary: s)
  case Nil
  then show ?case by simp
next
  case (Cons j js)
  note c = caller_resumes_settled [OF Cons.prems, of j]
  have w: "\<forall>i p. callers (caller_resumes j s) i = Awaiting p \<or>
                 callers (caller_resumes j s) i = Returned p
              \<longrightarrow> attempts (caller_resumes j s) p = Settled r"
  proof (intro allI impI)
    fix i p
    assume a: "callers (caller_resumes j s) i = Awaiting p \<or>
               callers (caller_resumes j s) i = Returned p"
    then have "callers s i = Awaiting p \<or> callers s i = Returned p"
      by (cases "i = j"; cases "callers s j") (auto simp: c(1))
    then have "attempts s p = Settled r"
      using Cons.prems by blast
    then show "attempts (caller_resumes j s) p = Settled r"
      by (simp add: c(2))
  qed
  have idem: "resolve r (resolve r (callers s j)) = resolve r (callers s j)"
    by (cases "callers s j") simp_all
  show ?case
    using Cons.IH [OF w] by (auto simp: c idem)
qed

lemma attempt_settles:
  assumes "success_inv s" "connecting_a s = Some p"
  shows "attempts (run [ImportSettles p True, AttemptResumes p, ConnectSettles p True] s) p
           = Settled (Inr (Some 0)) \<and>
         called (run [ImportSettles p True, AttemptResumes p, ConnectSettles p True] s) = called s"
proof -
  have a: "known s" "unfailed s" "resolved_0 s" "early s" "late s" "one_handle s"
    using assms(1) by (simp_all add: success_inv_def flight_inv_def)
  have n: "attempts s p \<noteq> NotStarted"
    using a(1) assms(2) unfolding known_def by blast
  show ?thesis
  proof (cases "attempts s p")
    case Importing
    then have "mongoClient_a s = None" using a(4) by (auto simp: early_def)
    then have "connects_a s = 0" using a(6) by (simp add: one_handle_def)
    then show ?thesis
      using Importing
      by (simp add: import_settles_def attempt_resumes_def connect_settles_def)
  next
    case (AwaitingMC ok)
    then have ok using a(2) by (cases ok) (auto simp: unfailed_def)
    have "mongoClient_a s = None" using a(4) AwaitingMC by (auto simp: early_def)
    then have "connects_a s = 0" using a(6) by (simp add: one_handle_def)
    then show ?thesis
      using AwaitingMC \<open>ok\<close>
      by (simp add: import_settles_def attempt_resumes_def connect_settles_def)
  next
    case Connecting
    then have "mongoClient_a s = Some 0"
      using a(5,6) by (auto simp: late_def one_handle_def)
    then show ?thesis
      using Connecting
      by (simp add: import_settles_def attempt_resumes_def connect_settles_def)
  next
    case (Settled r)
    then have "r = Inr (Some 0)"
      using a(2,3) by (cases r) (auto simp: unfailed_def resolved_0_def)
    then show ?thesis
      using Settled
      by (simp add: import_settles_def attempt_resumes_def connect_settles_def)
  qed (use n in simp)
qed

lemma finish_resolves:
  assumes "success_inv s" "0 < called s"
  shows "(\<forall>i < called s. callers (run (finish s) s) i = Done (Inr (Some 0))) \<and>
         started (run (finish s) s) = 1 \<and> connects_a (run (finish s) s) = 1"
proof -
  define es where "es = (case connecting_a s of None \<Rightarrow> []
     | Some p \<Rightarrow> [ImportSettles p True, AttemptResumes p, ConnectSettles p True])"
  define s1 where "s1 = run es s"
  have fin: "run (finish s) s = run (map CallerResumes [0..<called s]) s1"
    by (simp add: finish_def es_def s1_def run_append)
  have ok: "list_all succeeds es"
    by (simp add: es_def split: option.splits)
  have inv1: "success_inv s1"
    unfolding s1_def by (rule success_inv_run [OF assms(1) ok])
  have a: "known s" "marked s" "one_attempt s" "unfailed s" "resolved_0 s"
    using assms(1) by (simp_all add: success_inv_def flight_inv_def)
  have st: "started s = 1"
    using a(3) assms(2) by (simp add: one_attempt_def)
  have s0: "attempts s1 0 = Settled (Inr (Some 0)) \<and> called s1 = called s"
  proof (cases "connecting_a s")
    case None
    have "attempts s 0 \<noteq> NotStarted" using a(1) st by (simp add: known_def)
    moreover have "\<not> in_flight (attempts s 0)" using a(2) None by (auto simp: marked_def)
    ultimately obtain r where r: "attempts s 0 = Settled r"
      by (cases "attempts s 0") simp_all
    then have "r = Inr (Some 0)"
      using a(4,5) by (cases r) (auto simp: unfailed_def resolved_0_def)
    then show ?thesis using r None by (simp add: s1_def es_def)
  next
    case (Some p)
    then have "p = 0" using a(1) st by (auto simp: known_def)
    then show ?thesis
      using attempt_settles [OF assms(1) Some] Some by (simp add: s1_def es_def)
  qed
  have b: "known s1" "one_attempt s1" "late s1" "one_handle s1"
    using inv1 by (simp_all add: success_inv_def flight_inv_def)
  have st1: "started s1 = 1" "connects_a s1 = 1"
    using b(2,3,4) s0 assms(2) by (auto simp: one_attempt_def late_def one_handle_def)
  have w: "\<forall>i p. callers s1 i = Awaiting p \<or> callers s1 i = Returned p
              \<longrightarrow> attempts s1 p = Settled (Inr (Some 0))"
  proof (intro allI impI)
    fix i p assume "callers s1 i = Awaiting p \<or> callers s1 i = Returned p"
    then have "p < started s1" using b(1) unfolding known_def by blast
    then show "attempts s1 p = Settled (Inr (Some 0))" using st1 s0 by simp
  qed
  note sw = sweep [OF w, of "[0..<called s]"]
  have "\<forall>i < called s. callers (run (finish s) s) i = Done (Inr (Some 0))"
  proof (intro allI impI)
    fix i assume i: "i < called s"
    have c: "callers (run (finish s) s) i = resolve (Inr (Some 0)) (callers s1 i)"
      using sw [of i] i by (simp add: fin)
    have "callers s1 i \<noteq> NotCalled" using b(1) i s0 by (simp add: known_def)
    then show "callers (run (finish s) s) i = Done (Inr (Some 0))"
      using c agreement [OF inv1, of i] by (cases "callers s1 i") simp_all
  qed
  then show ?thesis
    using sw st1 by (simp add: fin)
qed

text \<open>
  Without that hypothesis the callers need not agree: when \<^verbatim>\<open>connect()\<close> rejects, the
  caller that waits for the attempt fails, and a caller that arrived after line 98 had
  stored the client has returned the client already (the stored handle of claim C2).
\<close>

lemma rejected_connect_splits_callers:
  "callers (reached True [Call, AttemptResumes 0, Call, ConnectSettles 0 False, CallerResumes 0]) 0
     = Done (Inl ConnectionError) \<and>
   callers (reached True [Call, AttemptResumes 0, Call, ConnectSettles 0 False, CallerResumes 0]) 1
     = Done (Inr (Some 0))"
  by (simp add: never_connected_def call_def attempt_resumes_def connect_settles_def
      caller_resumes_def Let_def)

text \<open>
  Claim C4. Connecting is single-flight. Take a manager that has never connected, any
  number of calls of \<^verbatim>\<open>ensureConnected\<close>, arriving at any time, and any order of the
  events of these calls. At every point of the run: \<^verbatim>\<open>connect()\<close> has been called at
  most once; at most one attempt is in flight; a call that arrives while an attempt is
  in flight starts no attempt and no \<^verbatim>\<open>connect()\<close>, it takes the promise of that attempt
  or, once the client is stored, the client; and every caller that has resolved has
  resolved to handle 0, the one client on which \<^verbatim>\<open>connect()\<close> was called, that once.

  When moreover the import and \<^verbatim>\<open>connect()\<close> succeed, every caller resolves, and to that
  handle. No caller ends with an error: whoever has ended holds handle 0. A caller that
  has not ended is never stuck: its next event is enabled and brings it one event closer
  to its end, and no event of anyone takes it further away, so it ends after at most four
  events of its own, however the run goes on. Letting what is pending run resolves every
  caller to handle 0. And from the first call on exactly one attempt has been started,
  and in the end \<^verbatim>\<open>connect()\<close> has been called exactly once.
\<close>

theorem C4_single_flight:
  "(connects_a (reached b evs) \<le> 1 \<and>
    (\<forall>p q. in_flight (attempts (reached b evs) p) \<and> in_flight (attempts (reached b evs) q)
           \<longrightarrow> p = q) \<and>
    (\<forall>p. in_flight (attempts (reached b evs) p)
         \<longrightarrow> started (step Call (reached b evs)) = started (reached b evs) \<and>
             connects_a (step Call (reached b evs)) = connects_a (reached b evs) \<and>
             (callers (step Call (reached b evs)) (called (reached b evs)) = Returned p \<or>
              callers (step Call (reached b evs)) (called (reached b evs))
                = Done (Inr (Some 0)))) \<and>
    (\<forall>i v. callers (reached b evs) i = Done (Inr v)
           \<longrightarrow> v = Some 0 \<and> connects_a (reached b evs) = 1))
   \<and>
   (list_all succeeds evs \<longrightarrow>
      (\<forall>i r. callers (reached b evs) i = Done r
             \<longrightarrow> r = Inr (Some 0) \<and> connects_a (reached b evs) = 1) \<and>
      (\<forall>i < called (reached b evs).
          (remaining (reached b evs) i = 0
             \<longrightarrow> callers (reached b evs) i = Done (Inr (Some 0))) \<and>
          (0 < remaining (reached b evs) i
             \<longrightarrow> remaining (step (next_event (reached b evs) i) (reached b evs)) i
                   < remaining (reached b evs) i) \<and>
          (\<forall>ev. remaining (step ev (reached b evs)) i \<le> remaining (reached b evs) i)) \<and>
      (\<forall>i < called (reached b evs).
          callers (reached b (evs @ finish (reached b evs))) i = Done (Inr (Some 0))) \<and>
      (0 < called (reached b evs)
         \<longrightarrow> started (reached b evs) = 1 \<and>
             started (reached b (evs @ finish (reached b evs))) = 1 \<and>
             connects_a (reached b (evs @ finish (reached b evs))) = 1))"
proof (intro conjI impI)
  let ?s = "reached b evs"
  have "flight_inv ?s"
    by (rule flight_inv_run) (rule flight_inv_init)
  then have a: "one_handle ?s" "marked ?s" "done_0 ?s"
    by (simp_all add: flight_inv_def)
  show "connects_a ?s \<le> 1"
    using a(1) by (cases "mongoClient_a ?s") (auto simp: one_handle_def)
  show "\<forall>p q. in_flight (attempts ?s p) \<and> in_flight (attempts ?s q) \<longrightarrow> p = q"
    using a(2) unfolding marked_def by (metis option.inject)
  show "\<forall>p. in_flight (attempts ?s p)
        \<longrightarrow> started (step Call ?s) = started ?s \<and> connects_a (step Call ?s) = connects_a ?s \<and>
            (callers (step Call ?s) (called ?s) = Returned p \<or>
             callers (step Call ?s) (called ?s) = Done (Inr (Some 0)))"
    using call_joins [OF a(1,2)] by simp
  show "\<forall>i v. callers ?s i = Done (Inr v) \<longrightarrow> v = Some 0 \<and> connects_a ?s = 1"
    using a(1,3) by (auto simp: one_handle_def done_0_def)
next
  let ?s = "reached b evs"
  assume ok: "list_all succeeds evs"
  have inv: "success_inv ?s"
    by (rule success_inv_run [OF success_inv_init ok])
  show "\<forall>i r. callers ?s i = Done r \<longrightarrow> r = Inr (Some 0) \<and> connects_a ?s = 1"
    using agreement [OF inv] by blast
  show "\<forall>i < called ?s.
          (remaining ?s i = 0 \<longrightarrow> callers ?s i = Done (Inr (Some 0))) \<and>
          (0 < remaining ?s i \<longrightarrow> remaining (step (next_event ?s i) ?s) i < remaining ?s i) \<and>
          (\<forall>ev. remaining (step ev ?s) i \<le> remaining ?s i)"
    using nothing_remains [OF inv] next_event_progress [OF inv] remaining_step [OF inv]
    by blast
  show "\<forall>i < called ?s. callers (reached b (evs @ finish ?s)) i = Done (Inr (Some 0))"
  proof (intro allI impI)
    fix i assume "i < called ?s"
    then have "0 < called ?s" by simp
    from finish_resolves [OF inv this] \<open>i < called ?s\<close>
    show "callers (reached b (evs @ finish ?s)) i = Done (Inr (Some 0))"
      by (simp add: run_append)
  qed
  assume c: "0 < called ?s"
  show "started ?s = 1"
    using inv c by (simp add: success_inv_def one_attempt_def)
  show "started (reached b (evs @ finish ?s)) = 1"
    using finish_resolves [OF inv c] by (simp add: run_append)
  show "connects_a (reached b (evs @ finish ?s)) = 1"
    using finish_resolves [OF inv c] by (simp add: run_append)
qed

lemmas ev_defs = never_connected_def call_def import_settles_def
        attempt_resumes_def connect_settles_def caller_resumes_def Let_def

text \<open>Claim C4 at three runs. A second call while the import of the first is pending
  takes the promise of attempt 0. Two callers that have arrived with nothing settled:
  the second is four events from its end, its next event brings it closer, and letting
  what is pending run leaves both with handle 0, one attempt and one \<^verbatim>\<open>connect()\<close>. Of
  three callers, two arrive before the import has settled and one while \<^verbatim>\<open>connect()\<close> is
  pending; all three hold handle 0.\<close>

theorem C4_witness:
  "in_flight (attempts (reached False [Call]) 0) \<and>
   callers (step Call (reached False [Call])) 1 = Returned 0 \<and>
   started (step Call (reached False [Call])) = 1 \<and>
   list_all succeeds ex_two_calls \<and>
   called (reached False ex_two_calls) = 2 \<and>
   remaining (reached False ex_two_calls) 1 = 4 \<and>
   remaining (step (next_event (reached False ex_two_calls) 1) (reached False ex_two_calls)) 1 < 4 \<and>
   callers (reached False (ex_two_calls @ finish (reached False ex_two_calls))) 0
     = Done (Inr (Some 0)) \<and>
   callers (reached False (ex_two_calls @ finish (reached False ex_two_calls))) 1
     = Done (Inr (Some 0)) \<and>
   started (reached False (ex_two_calls @ finish (reached False ex_two_calls))) = 1 \<and>
   connects_a (reached False (ex_two_calls @ finish (reached False ex_two_calls))) = 1 \<and>
   callers (reached False ex_events) 0 = Done (Inr (Some 0)) \<and>
   callers (reached False ex_events) 1 = Done (Inr (Some 0)) \<and>
   callers (reached False ex_events) 2 = Done (Inr (Some 0)) \<and>
   connects_a (reached False ex_events) = 1"
proof -
  have f: "in_flight (attempts (reached False [Call]) 0)"
    "called (reached False [Call]) = 1" "started (reached False [Call]) = 1"
    "callers (step Call (reached False [Call])) 1 \<noteq> Done (Inr (Some 0))"
    by (simp_all add: ev_defs)
  have g: "list_all succeeds ex_two_calls" "called (reached False ex_two_calls) = 2"
    "remaining (reached False ex_two_calls) 1 = 4"
    by (simp_all add: ex_two_calls_def ev_defs remaining_def)
  have lt: "(0::nat) < 2" "(1::nat) < 2" "(0::nat) < 4" by simp_all
  note safe = C4_single_flight [where b = False and evs = "[Call]", THEN conjunct1]
  note t1 = safe [THEN conjunct2, THEN conjunct2, THEN conjunct1, rule_format, OF f(1)]
  note live = C4_single_flight [where b = False and evs = ex_two_calls, THEN conjunct2, rule_format, OF g(1)]
  note l2 = live [THEN conjunct2, THEN conjunct1, rule_format, of 1]
  note l3 = live [THEN conjunct2, THEN conjunct2, THEN conjunct1, rule_format]
  note l4 = live [THEN conjunct2, THEN conjunct2, THEN conjunct2, rule_format]
  have p: "remaining (step (next_event (reached False ex_two_calls) 1)
             (reached False ex_two_calls)) 1 < 4"
    using l2 g(2,3) by simp
  have c0: "callers (reached False (ex_two_calls @ finish (reached False ex_two_calls))) 0
     = Done (Inr (Some 0))"
    using l3 [of 0] g(2) by simp
  have c1: "callers (reached False (ex_two_calls @ finish (reached False ex_two_calls))) 1
     = Done (Inr (Some 0))"
    using l3 [of 1] g(2) by simp
  have d: "started (reached False (ex_two_calls @ finish (reached False ex_two_calls))) = 1"
    "connects_a (reached False (ex_two_calls @ finish (reached False ex_two_calls))) = 1"
    using l4 g(2) by simp_all
  have e: "callers (reached False ex_events) 0 = Done (Inr (Some 0))"
    "callers (reached False ex_events) 1 = Done (Inr (Some 0))"
    "callers (reached False ex_events) 2 = Done (Inr (Some 0))"
    by (simp_all add: ex_events_def ev_defs)
  note t2 = C4_single_flight [where b = False and evs = ex_events, THEN conjunct1,
              THEN conjunct2, THEN conjunct2, THEN conjunct2, rule_format, OF e(1)]
  show ?thesis
    using t1 t2 f g p c0 c1 d e by simp
qed

end
